theory Spec2Isabelle
  imports Main "HOL-Library.Finite_Map"
begin

section \<open>Values crossing the request layer\<close>

text \<open>
  JSON-like JavaScript values: request parameters, response bodies and whatever a hook
  returns. Objects are finite maps from property names, so HOL equality is lodash's
  \<open>_.isEqual\<close> (deep, blind to key order). \<open>JUndefined\<close> is JavaScript's
  \<open>undefined\<close>.
\<close>

datatype json =
    JUndefined
  | JNull
  | JBool bool
  | JNum int
  | JStr string
  | JArr "json list"
  | JObj "(string, json) fmap"

text \<open>JavaScript truthiness, as \<open>if (x)\<close> and \<open>!x\<close> read a value.\<close>

fun truthy :: "json \<Rightarrow> bool" where
  "truthy JUndefined = False"
| "truthy JNull = False"
| "truthy (JBool b) = b"
| "truthy (JNum n) = (n \<noteq> 0)"
| "truthy (JStr s) = (s \<noteq> [])"
| "truthy (JArr xs) = True"
| "truthy (JObj m) = True"

text \<open>
  An HTTP response as axios hands it over. The status is optional because the failure
  path of \<open>triggerApiRequest\<close> can build \<open>{...err.response, data: convertedData}\<close>
  from an error that had no response.
\<close>

record AxiosResponse =
  status :: "nat option"
  headers :: "(string \<times> string) list"
  data :: json

text \<open>
  A thrown value: \<open>is_axios\<close> is \<open>err instanceof AxiosError\<close>, \<open>response\<close> is
  \<open>err.response\<close> (absent for a transport error and for a plain \<open>Error\<close>).
\<close>

record js_error =
  is_axios :: bool
  message :: string
  response :: "AxiosResponse option"

definition Error :: "string \<Rightarrow> js_error" where
  "Error msg = \<lparr>is_axios = False, message = msg, response = None\<rparr>"

definition TypeError :: "string \<Rightarrow> js_error" where
  "TypeError msg = \<lparr>is_axios = False, message = msg, response = None\<rparr>"

section \<open>Request descriptions (\<open>ApiRequestDescription\<close>)\<close>

datatype method_name = Get | Patch | Post | Put | Delete

text \<open>\<open>URLPattern = Array<string | Record<string, string | undefined | null>>\<close>\<close>

datatype pattern_part = PStr string | PRec "(string \<times> string option) list"

datatype url_spec = UrlString string | UrlPattern "pattern_part list"

type_synonym RequestUlid = string

text \<open>
  The rollback closure an optimistic update returns: calling it either returns or throws.
  \<open>rb_id\<close> tells closures apart in the trace.
\<close>

record rollbackFn =
  rb_id :: nat
  rb_call :: "js_error + unit"

type_synonym params = "(string, json) fmap"

text \<open>
  Hooks are caller-supplied functions; each is described by what a call of it does: it
  returns (\<open>Inr\<close>) or throws (\<open>Inl\<close>). The fields \<open>api\<close>, \<open>headers\<close> and
  \<open>options\<close> of the source only choose and configure the transport and are left out.
\<close>

datatype RawRequestStatusKeyArg = KStr string | KNum int | KUndefined | KNull

datatype keyRequestStatusBy_arg =
    KeyScalar RawRequestStatusKeyArg
  | KeyArray "RawRequestStatusKeyArg list"

record ApiRequestDescription =
  http_method :: "method_name option"
  url :: "url_spec option"
  params :: "params option"
  formData :: "string option"
  keyRequestStatusBy :: "keyRequestStatusBy_arg option"
  onSuccess :: "(json \<Rightarrow> js_error + unit) option"
  onNewChangeSet :: "(string \<Rightarrow> json \<Rightarrow> js_error + unit) option"
  onFail :: "(js_error \<Rightarrow> js_error + json) option"
  optimistic :: "(RequestUlid \<Rightarrow> js_error + rollbackFn option) option"
  delay :: "nat option"

section \<open>Tracking keys\<close>

definition TRACKING_KEY_SEPARATOR :: string where
  "TRACKING_KEY_SEPARATOR = ''%''"

text \<open>\<open>String(n)\<close> for an integral number.\<close>

definition digit_char :: "nat \<Rightarrow> char" where
  "digit_char d = ''0123456789'' ! d"

fun string_of_nat :: "nat \<Rightarrow> string" where
  "string_of_nat n =
     (if n < 10 then [digit_char n]
      else string_of_nat (n div 10) @ [digit_char (n mod 10)])"

declare string_of_nat.simps [simp del]

text \<open>
  The numbers among the discriminators are integers of magnitude below \<open>10\<^sup>2\<^sup>1\<close>,
  which \<open>String\<close> prints in plain decimal digits.
\<close>

definition string_of_int :: "int \<Rightarrow> string" where
  "string_of_int i =
     (if i < 0 then CHR ''-'' # string_of_nat (nat (- i)) else string_of_nat (nat i))"

text \<open>
  \<open>Array.prototype.join\<close>: \<open>undefined\<close> and \<open>null\<close> elements become the empty
  string, every other element its \<open>String\<close>.
\<close>

fun join_item :: "RawRequestStatusKeyArg \<Rightarrow> string" where
  "join_item (KStr s) = s"
| "join_item (KNum n) = string_of_int n"
| "join_item KUndefined = []"
| "join_item KNull = []"

fun join_strings :: "string \<Rightarrow> string list \<Rightarrow> string" where
  "join_strings sep [] = []"
| "join_strings sep [x] = x"
| "join_strings sep (x # y # ys) = x @ sep @ join_strings sep (y # ys)"

definition js_join :: "string \<Rightarrow> RawRequestStatusKeyArg list \<Rightarrow> string" where
  "js_join sep xs = join_strings sep (map join_item xs)"

text \<open>Truthiness of a key argument: \<open>''\<close>, \<open>0\<close>, \<open>undefined\<close> and \<open>null\<close> are falsy.\<close>

fun key_truthy :: "RawRequestStatusKeyArg \<Rightarrow> bool" where
  "key_truthy (KStr s) = (s \<noteq> [])"
| "key_truthy (KNum n) = (n \<noteq> 0)"
| "key_truthy KUndefined = False"
| "key_truthy KNull = False"

text \<open>
  \<open>getTrackingKey\<close> (dispatch side): the array starts with the action name; a truthy
  \<open>keyRequestStatusBy\<close> is pushed, an array element by element (an array is truthy,
  also when empty), then everything is joined.
\<close>

definition getTrackingKey :: "string \<Rightarrow> ApiRequestDescription \<Rightarrow> string" where
  "getTrackingKey actionName requestSpec =
     js_join TRACKING_KEY_SEPARATOR
       (KStr actionName #
         (case keyRequestStatusBy requestSpec of
            None \<Rightarrow> []
          | Some (KeyArray ks) \<Rightarrow> ks
          | Some (KeyScalar k) \<Rightarrow> (if key_truthy k then [k] else [])))"

text \<open>Vue's \<open>Ref\<close>: the read side accepts a value or a reference to one.\<close>

datatype RequestStatusKeyArg = Raw RawRequestStatusKeyArg | Ref RawRequestStatusKeyArg

fun unref :: "RequestStatusKeyArg \<Rightarrow> RawRequestStatusKeyArg" where
  "unref (Raw k) = k"
| "unref (Ref k) = k"

text \<open>lodash's \<open>_.compact\<close>: the truthy elements, in order.\<close>

definition compact :: "RawRequestStatusKeyArg list \<Rightarrow> RawRequestStatusKeyArg list" where
  "compact ks = filter key_truthy ks"

text \<open>\<open>getKey\<close> (read side, used by \<open>getRequestStatus\<close> and \<open>clearRequestStatus\<close>).\<close>

definition getKey :: "string \<Rightarrow> RequestStatusKeyArg list \<Rightarrow> string" where
  "getKey requestKey keyedByArgs =
     js_join TRACKING_KEY_SEPARATOR (KStr requestKey # compact (map unref keyedByArgs))"

section \<open>URL patterns\<close>

text \<open>
  \<open>describePattern\<close>: the dispatched URL takes each record's first value, the span name
  its first key behind a colon. A record whose first value is missing or falsy throws.
\<close>

fun describePart :: "pattern_part \<Rightarrow> js_error + (string \<times> string list)" where
  "describePart (PStr p) = Inr (p, [p])"
| "describePart (PRec []) = Inl (Error ''Bad URLPattern'')"
| "describePart (PRec ((k, v) # kvs)) =
     (case v of
        None \<Rightarrow> Inl (Error ''Bad URLPattern'')
      | Some s \<Rightarrow> if s = [] then Inl (Error ''Bad URLPattern'') else Inr (s, [CHR '':'' # k]))"

fun describeParts :: "pattern_part list \<Rightarrow> js_error + (string list \<times> string list)" where
  "describeParts [] = Inr ([], [])"
| "describeParts (p # ps) =
     (case describePart p of
        Inl e \<Rightarrow> Inl e
      | Inr (u, ns) \<Rightarrow>
          (case describeParts ps of
             Inl e \<Rightarrow> Inl e
           | Inr (us, nss) \<Rightarrow> Inr (u # us, ns @ nss)))"

definition describePattern :: "pattern_part list \<Rightarrow> js_error + (string \<times> string)" where
  "describePattern pattern =
     (case describeParts pattern of
        Inl e \<Rightarrow> Inl e
      | Inr (us, ns) \<Rightarrow> Inr (join_strings ''/'' us, join_strings ''/'' ns))"

section \<open>The \<open>ApiRequest\<close> object\<close>

record ApiRequest =
  rawResponseData :: json
  rawResponseError :: "js_error option"
  rawSuccess :: "bool option"
  requestSpec :: ApiRequestDescription

text \<open>The constructor: the method defaults to \<open>get\<close>; nothing is known of the outcome.\<close>

definition new_ApiRequest :: "ApiRequestDescription \<Rightarrow> ApiRequest" where
  "new_ApiRequest spec =
     \<lparr>rawResponseData = JUndefined, rawResponseError = None, rawSuccess = None,
      requestSpec = (if http_method spec = None then spec\<lparr>http_method := Some Get\<rparr> else spec)\<rparr>"

definition setSuccessfulResult :: "json \<Rightarrow> ApiRequest \<Rightarrow> ApiRequest" where
  "setSuccessfulResult d r = r\<lparr>rawSuccess := Some True, rawResponseData := d\<rparr>"

definition setFailedResult :: "js_error \<Rightarrow> ApiRequest \<Rightarrow> ApiRequest" where
  "setFailedResult err r = r\<lparr>rawSuccess := Some False, rawResponseError := Some err\<rparr>"

text \<open>
  What the \<open>result\<close> getter returns. A failure carries the keys \<open>errBody\<close> and
  \<open>statusCode\<close> only for an \<open>AxiosError\<close> (\<open>axios_part = Some ...\<close>); their values
  are \<open>response?.data\<close> and \<open>response?.status\<close>.
\<close>

datatype request_result =
    Success json
  | Failure (err: "js_error option") (axios_part: "(json \<times> nat option) option")

definition errBody :: "js_error \<Rightarrow> json" where
  "errBody e = (case response e of None \<Rightarrow> JUndefined | Some r \<Rightarrow> data r)"

definition statusCode :: "js_error \<Rightarrow> nat option" where
  "statusCode e = (case response e of None \<Rightarrow> None | Some r \<Rightarrow> status r)"

definition result :: "ApiRequest \<Rightarrow> js_error + request_result" where
  "result r =
     (case rawSuccess r of
        None \<Rightarrow> Inl (Error ''You must await the request to access the result'')
      | Some True \<Rightarrow> Inr (Success (rawResponseData r))
      | Some False \<Rightarrow>
          Inr (Failure (rawResponseError r)
                 (case rawResponseError r of
                    None \<Rightarrow> None
                  | Some e \<Rightarrow> if is_axios e then Some (errBody e, statusCode e) else None)))"

section \<open>The debouncer's record (\<open>RawApiRequestStatus\<close>) and its status getters\<close>

type_synonym date = nat
type_synonym addr = nat
type_synonym pid = nat
type_synonym cid = nat

text \<open>What a completion promise resolves with: \<open>{data: ...}\<close> or \<open>{error: ...}\<close>.\<close>

datatype trigger_result = TData json | TError js_error

record RawApiRequestStatus =
  requestedAt :: date
  receivedAt :: "date option"
  completedAt :: "date option"
  lastSuccessAt :: "date option"
  payload :: "params option"
  error :: "AxiosResponse option"
  completed :: "pid option"

record ApiRequestDebouncer =
  request :: "RawApiRequestStatus option"

definition new_ApiRequestDebouncer :: ApiRequestDebouncer where
  "new_ApiRequestDebouncer = \<lparr>request = None\<rparr>"

definition isRequested :: "ApiRequestDebouncer \<Rightarrow> bool" where
  "isRequested d = (request d \<noteq> None)"

definition isFirstLoad :: "ApiRequestDebouncer \<Rightarrow> bool" where
  "isFirstLoad d =
     (case request d of
        None \<Rightarrow> False
      | Some r \<Rightarrow> receivedAt r = None \<and> lastSuccessAt r = None)"

definition isPending :: "ApiRequestDebouncer \<Rightarrow> bool" where
  "isPending d = (case request d of None \<Rightarrow> False | Some r \<Rightarrow> receivedAt r = None)"

definition isError :: "ApiRequestDebouncer \<Rightarrow> bool" where
  "isError d = (case request d of None \<Rightarrow> False | Some r \<Rightarrow> error r \<noteq> None)"

definition isSuccess :: "ApiRequestDebouncer \<Rightarrow> bool" where
  "isSuccess d =
     (case request d of None \<Rightarrow> False | Some r \<Rightarrow> receivedAt r \<noteq> None \<and> error r = None)"

section \<open>The store, the calls in flight and the trace\<close>

text \<open>
  \<open>triggerApiRequest\<close> is an async function: it runs to its first \<open>await\<close>, and
  each later stretch runs when the awaited promise settles. A call in flight is its
  closure (\<open>this\<close>, the request description with its hooks, the rollback closure, the
  deferred promise) and the place where it is suspended or has ended.
\<close>

datatype pc =
    AwaitDelay
  | AwaitApi
  | AwaitNewChangeSet AxiosResponse "js_error + unit"
  | AwaitOnSuccess AxiosResponse "js_error + unit"
  | ReturnedTry trigger_result
  | ReturnedCatch trigger_result
  | ThrewInCatch js_error
  | ThrewBeforeTry js_error

record call =
  c_this :: addr
  c_spec :: ApiRequestDescription
  c_url :: string
  c_rollback :: "rollbackFn option"
  c_completed :: pid
  c_pc :: pc

datatype request_body = BodyForm string | BodyParams "params option"

text \<open>What the layer does to the outside: the transport call and the hook calls.\<close>

datatype log_event =
    LOptimistic cid RequestUlid
  | LPhysicalCall cid "method_name option" string "params option" "request_body option"
  | LNewChangeSet cid string json
  | LOnSuccess cid json
  | LRollback cid nat
  | LOnFail cid js_error

text \<open>What a caller of \<open>triggerApiRequest\<close> is left awaiting.\<close>

datatype awaited = AwaitsCall cid | AwaitsPromise "pid option"

text \<open>
  \<open>store\<close> is \<open>store.apiRequestDebouncers\<close>; the debouncers are objects, so the
  store holds addresses into \<open>debouncers\<close> and a call in flight keeps the address of
  its own \<open>this\<close>. \<open>promises\<close> holds every deferred promise (\<open>None\<close>: pending).
  \<open>delay_env\<close> is \<open>import.meta.env.VITE_DELAY_API_REQUESTS\<close> being set.
\<close>

record world =
  store :: "string \<rightharpoonup> addr"
  debouncers :: "ApiRequestDebouncer list"
  promises :: "trigger_result option list"
  calls :: "call list"
  callers :: "awaited list"
  log :: "log_event list"
  delay_env :: bool

definition init_world :: "bool \<Rightarrow> world" where
  "init_world dly =
     \<lparr>store = Map.empty, debouncers = [], promises = [], calls = [], callers = [],
      log = [], delay_env = dly\<rparr>"

text \<open>A promise settles once: resolving a settled promise changes nothing.\<close>

definition resolve :: "pid \<Rightarrow> trigger_result \<Rightarrow> world \<Rightarrow> world" where
  "resolve p v w =
     (if p < length (promises w) \<and> promises w ! p = None
      then w\<lparr>promises := (promises w)[p := Some v]\<rparr> else w)"

definition add_log :: "log_event \<Rightarrow> world \<Rightarrow> world" where
  "add_log e w = w\<lparr>log := log w @ [e]\<rparr>"

definition set_request :: "addr \<Rightarrow> RawApiRequestStatus \<Rightarrow> world \<Rightarrow> world" where
  "set_request a r w = w\<lparr>debouncers := (debouncers w)[a := \<lparr>request = Some r\<rparr>]\<rparr>"

section \<open>\<open>triggerApiRequest\<close>, stretch by stretch\<close>

text \<open>
  Each stretch of a call between two suspensions is a function of the call's closure
  \<open>cl\<close> and the world; it yields the place where the call is suspended next or has
  ended, and the world it leaves. Hooks are described by their outcome only, so a hook
  that would itself dispatch a request is outside these stretches.
\<close>

definition undefined_read :: js_error where
  "undefined_read = TypeError ''Cannot read properties of undefined''"

text \<open>
  \<open>completed.resolve(v)\<close> followed by \<open>return await completed.promise\<close>: the call
  returns the value its promise holds.
\<close>

definition resolve_and_return ::
  "call \<Rightarrow> (trigger_result \<Rightarrow> pc) \<Rightarrow> trigger_result \<Rightarrow> world \<Rightarrow> pc \<times> world" where
  "resolve_and_return cl k v w =
     (let w' = resolve (c_completed cl) v w
      in (k (case promises w' ! c_completed cl of Some held \<Rightarrow> held | None \<Rightarrow> v), w'))"

text \<open>The fallback error body for an error without a response.\<close>

definition synthesized_error :: "string \<Rightarrow> AxiosResponse" where
  "synthesized_error msg =
     \<lparr>status = None, headers = [],
      data = JObj (fmupd ''error'' (JObj (fmupd ''message'' (JStr msg) fmempty)) fmempty)\<rparr>"

text \<open>\<open>err.response = {...err.response, data: convertedData}\<close>\<close>

definition with_converted :: "json \<Rightarrow> js_error \<Rightarrow> js_error" where
  "with_converted cd e =
     e\<lparr>response :=
         Some (case response e of
                 None \<Rightarrow> \<lparr>status = None, headers = [], data = cd\<rparr>
               | Some r \<Rightarrow> r\<lparr>data := cd\<rparr>)\<rparr>"

text \<open>
  The \<open>catch\<close> block, which runs without suspending: mark the record received, call the
  rollback, call \<open>onFail\<close>, store the error, resolve the promise, set the span's status
  attribute from \<open>err.response.status\<close> (a read that throws when \<open>err.response\<close> is
  undefined), return. A throw in here leaves the function. The three definitions are the
  block from its end to its start.
\<close>

definition catch_store_and_return :: "call \<Rightarrow> js_error \<Rightarrow> world \<Rightarrow> pc \<times> world" where
  "catch_store_and_return cl e w =
     (case request (debouncers w ! c_this cl) of
        None \<Rightarrow> (ThrewInCatch undefined_read, w)
      | Some r \<Rightarrow>
          (let w1 = set_request (c_this cl)
                      (r\<lparr>error := Some (case response e of
                                          Some resp \<Rightarrow> resp
                                        | None \<Rightarrow> synthesized_error (message e))\<rparr>) w
           in if response e = None
              then (ThrewInCatch undefined_read, resolve (c_completed cl) (TError e) w1)
              else resolve_and_return cl ReturnedCatch (TError e) w1))"

definition catch_onFail :: "cid \<Rightarrow> call \<Rightarrow> js_error \<Rightarrow> world \<Rightarrow> pc \<times> world" where
  "catch_onFail c cl e w =
     (case onFail (c_spec cl) of
        None \<Rightarrow> catch_store_and_return cl e w
      | Some h \<Rightarrow>
          (case h e of
             Inl thrown \<Rightarrow> (ThrewInCatch thrown, add_log (LOnFail c e) w)
           | Inr convertedData \<Rightarrow>
               catch_store_and_return cl
                 (if truthy convertedData then with_converted convertedData e else e)
                 (add_log (LOnFail c e) w)))"

definition catch_block :: "cid \<Rightarrow> call \<Rightarrow> js_error \<Rightarrow> date \<Rightarrow> world \<Rightarrow> pc \<times> world" where
  "catch_block c cl e now w =
     (case request (debouncers w ! c_this cl) of
        None \<Rightarrow> (ThrewInCatch undefined_read, w)
      | Some r \<Rightarrow>
          (let w1 = set_request (c_this cl) (r\<lparr>receivedAt := Some now\<rparr>) w in
           case c_rollback cl of
             None \<Rightarrow> catch_onFail c cl e w1
           | Some rb \<Rightarrow>
               (case rb_call rb of
                  Inl thrown \<Rightarrow> (ThrewInCatch thrown, add_log (LRollback c (rb_id rb)) w1)
                | Inr u \<Rightarrow> catch_onFail c cl e (add_log (LRollback c (rb_id rb)) w1))))"

text \<open>The end of the \<open>try\<close> block: resolve with the data and return.\<close>

definition finish_success :: "call \<Rightarrow> AxiosResponse \<Rightarrow> world \<Rightarrow> pc \<times> world" where
  "finish_success cl resp w = resolve_and_return cl ReturnedTry (TData (data resp)) w"

text \<open>
  After the context-switch hook: mark the debouncer's current record as succeeded and
  received, then call \<open>onSuccess\<close> and await it.
\<close>

definition mark_received :: "cid \<Rightarrow> call \<Rightarrow> AxiosResponse \<Rightarrow> date \<Rightarrow> world \<Rightarrow> pc \<times> world" where
  "mark_received c cl resp now w =
     (case request (debouncers w ! c_this cl) of
        None \<Rightarrow> catch_block c cl undefined_read now w
      | Some r \<Rightarrow>
          (let w1 = set_request (c_this cl)
                      (r\<lparr>lastSuccessAt := Some now, receivedAt := Some now\<rparr>) w in
           case onSuccess (c_spec cl) of
             None \<Rightarrow> finish_success cl resp w1
           | Some g \<Rightarrow>
               (AwaitOnSuccess resp (g (data resp)), add_log (LOnSuccess c (data resp)) w1)))"

text \<open>
  The transport call has settled. A rejection enters the \<open>catch\<close> block. A response
  with a truthy \<open>force_change_set_id\<close> header calls \<open>onNewChangeSet\<close>, when the
  description has one, and awaits it.
\<close>

definition on_api_settled ::
  "cid \<Rightarrow> call \<Rightarrow> js_error + AxiosResponse \<Rightarrow> date \<Rightarrow> world \<Rightarrow> pc \<times> world" where
  "on_api_settled c cl outcome now w =
     (case outcome of
        Inl e \<Rightarrow> catch_block c cl e now w
      | Inr resp \<Rightarrow>
          (case map_of (headers resp) ''force_change_set_id'' of
             None \<Rightarrow> mark_received c cl resp now w
           | Some h \<Rightarrow>
               if h = [] then mark_received c cl resp now w
               else (case onNewChangeSet (c_spec cl) of
                       None \<Rightarrow> mark_received c cl resp now w
                     | Some f \<Rightarrow>
                         (AwaitNewChangeSet resp (f h (data resp)),
                          add_log (LNewChangeSet c h (data resp)) w))))"

text \<open>An awaited hook has settled: go on after it, or enter the \<open>catch\<close> block.\<close>

definition on_hook_settled :: "cid \<Rightarrow> call \<Rightarrow> date \<Rightarrow> world \<Rightarrow> pc \<times> world" where
  "on_hook_settled c cl now w =
     (case c_pc cl of
        AwaitNewChangeSet resp (Inr u) \<Rightarrow> mark_received c cl resp now w
      | AwaitNewChangeSet resp (Inl e) \<Rightarrow> catch_block c cl e now w
      | AwaitOnSuccess resp (Inr u) \<Rightarrow> finish_success cl resp w
      | AwaitOnSuccess resp (Inl e) \<Rightarrow> catch_block c cl e now w
      | other \<Rightarrow> (other, w))"

text \<open>
  Issuing the transport call: \<open>get\<close> sends the parameters as query string; the other
  methods send the form data as body (and the parameters as query string) or, without
  form data, the parameters as body.
\<close>

definition issue_call :: "cid \<Rightarrow> call \<Rightarrow> world \<Rightarrow> pc \<times> world" where
  "issue_call c cl w =
     (AwaitApi,
      add_log
        (if http_method (c_spec cl) = Some Get
         then LPhysicalCall c (http_method (c_spec cl)) (c_url cl) (params (c_spec cl)) None
         else (case formData (c_spec cl) of
                 Some fd \<Rightarrow>
                   LPhysicalCall c (http_method (c_spec cl)) (c_url cl) (params (c_spec cl))
                     (Some (BodyForm fd))
               | None \<Rightarrow>
                   LPhysicalCall c (http_method (c_spec cl)) (c_url cl) None
                     (Some (BodyParams (params (c_spec cl)))))) w)"

text \<open>Running the next stretch of call \<open>c\<close> and recording where it stopped.\<close>

definition resume :: "cid \<Rightarrow> (call \<Rightarrow> world \<Rightarrow> pc \<times> world) \<Rightarrow> world \<Rightarrow> world" where
  "resume c stretch w =
     (case stretch (calls w ! c) w of
        (p, w') \<Rightarrow> w'\<lparr>calls := (calls w)[c := (calls w ! c)\<lparr>c_pc := p\<rparr>]\<rparr>)"

text \<open>The deduplication test at the head of \<open>triggerApiRequest\<close>.\<close>

definition dedup_hit :: "ApiRequestDebouncer \<Rightarrow> ApiRequestDescription \<Rightarrow> bool" where
  "dedup_hit d spec =
     (case request d of
        None \<Rightarrow> False
      | Some r \<Rightarrow> receivedAt r = None \<and> payload r = params spec)"

definition resolve_url :: "ApiRequestDescription \<Rightarrow> js_error + (string \<times> string)" where
  "resolve_url spec =
     (case url spec of
        Some (UrlPattern p) \<Rightarrow> describePattern p
      | Some (UrlString s) \<Rightarrow> Inr (s, s)
      | None \<Rightarrow> Inl (Error ''URL is required''))"

definition wants_delay :: "world \<Rightarrow> ApiRequestDescription \<Rightarrow> bool" where
  "wants_delay w spec =
     (delay_env w \<or> (case delay spec of None \<Rightarrow> False | Some ms \<Rightarrow> ms \<noteq> 0))"

text \<open>\<open>get lastSuccessAt()\<close> and \<open>get completed()\<close> of the debouncer.\<close>

definition get_lastSuccessAt :: "ApiRequestDebouncer \<Rightarrow> date option" where
  "get_lastSuccessAt d = (case request d of None \<Rightarrow> None | Some r \<Rightarrow> lastSuccessAt r)"

definition get_completed :: "ApiRequestDebouncer \<Rightarrow> pid option" where
  "get_completed d = (case request d of None \<Rightarrow> None | Some r \<Rightarrow> completed r)"

text \<open>
  What the first stretch does once the deduplication test has failed: a fresh identifier
  is written into the parameters, a new record replaces the old one (keeping its
  \<open>lastSuccessAt\<close>), the optimistic update runs, the URL is resolved (both may throw,
  which rejects the call with the record left as it is), and the transport call is
  issued, after the artificial delay if one is set. The result is the new call, as it
  stands at its first suspension, and the world.
\<close>

definition start_call ::
  "cid \<Rightarrow> addr \<Rightarrow> ApiRequestDescription \<Rightarrow> RequestUlid \<Rightarrow> date \<Rightarrow> world \<Rightarrow> call \<times> world" where
  "start_call c a spec0 requestUlid now w =
     (let spec = spec0\<lparr>params :=
                   Some (fmupd ''requestUlid'' (JStr requestUlid)
                           (case params spec0 of None \<Rightarrow> fmempty | Some p \<Rightarrow> p))\<rparr>;
          p = length (promises w);
          r = \<lparr>requestedAt = now, receivedAt = None, completedAt = None,
               lastSuccessAt = get_lastSuccessAt (debouncers w ! a),
               payload = params spec, error = None, completed = Some p\<rparr>;
          w1 = (set_request a r w)\<lparr>promises := promises w @ [None]\<rparr>;
          w2 = (case optimistic spec of
                  None \<Rightarrow> w1
                | Some f \<Rightarrow> add_log (LOptimistic c requestUlid) w1);
          new_call = (\<lambda>u rb st. \<lparr>c_this = a, c_spec = spec, c_url = u, c_rollback = rb,
                                  c_completed = p, c_pc = st\<rparr>)
      in case (case optimistic spec of None \<Rightarrow> Inr None | Some f \<Rightarrow> f requestUlid) of
           Inl thrown \<Rightarrow> (new_call [] None (ThrewBeforeTry thrown), w2)
         | Inr rb \<Rightarrow>
             (case resolve_url spec of
                Inl thrown \<Rightarrow> (new_call [] rb (ThrewBeforeTry thrown), w2)
              | Inr (u, urlName) \<Rightarrow>
                  if wants_delay w spec then (new_call u rb AwaitDelay, w2)
                  else (case issue_call c (new_call u rb AwaitDelay) w2 of
                          (st, w3) \<Rightarrow> (new_call u rb st, w3))))"

text \<open>
  The first stretch of \<open>triggerApiRequest\<close>, up to the first \<open>await\<close>. On a
  deduplication hit the caller gets the pending record's promise and nothing else
  happens. Otherwise a call is started, and the caller awaits it.
\<close>

definition triggerApiRequest_start ::
  "addr \<Rightarrow> ApiRequestDescription \<Rightarrow> RequestUlid \<Rightarrow> date \<Rightarrow> world \<Rightarrow> world" where
  "triggerApiRequest_start a spec requestUlid now w =
     (if dedup_hit (debouncers w ! a) spec
      then w\<lparr>callers := callers w @ [AwaitsPromise (get_completed (debouncers w ! a))]\<rparr>
      else (case start_call (length (calls w)) a spec requestUlid now w of
              (cl, w') \<Rightarrow> w'\<lparr>calls := calls w @ [cl],
                              callers := callers w @ [AwaitsCall (length (calls w))]\<rparr>))"

section \<open>The store plugin: wrapped actions and the read side\<close>

text \<open>\<open>store.apiRequestDebouncers[key] ??= new ApiRequestDebouncer(config.api)\<close>\<close>

definition ensure_debouncer :: "string \<Rightarrow> world \<Rightarrow> world" where
  "ensure_debouncer k w =
     (case store w k of
        Some a \<Rightarrow> w
      | None \<Rightarrow> w\<lparr>store := (store w)(k \<mapsto> length (debouncers w)),
                  debouncers := debouncers w @ [new_ApiRequestDebouncer]\<rparr>)"

text \<open>
  \<open>wrappedActionFn\<close>, once the action has returned an \<open>ApiRequest\<close>: resolve the
  tracking key, make sure the key has a debouncer, and start \<open>triggerApiRequest\<close> on it
  (through \<open>fireActionResult\<close>, whose own continuation is \<open>fireActionResult\<close> below).
\<close>

definition wrappedActionFn ::
  "string \<Rightarrow> ApiRequestDescription \<Rightarrow> RequestUlid \<Rightarrow> date \<Rightarrow> world \<Rightarrow> world" where
  "wrappedActionFn actionName spec requestUlid now w =
     (let k = getTrackingKey actionName spec; w1 = ensure_debouncer k w
      in case store w1 k of
           None \<Rightarrow> w1
         | Some a \<Rightarrow> triggerApiRequest_start a spec requestUlid now w1)"

definition clearRequestStatus :: "string \<Rightarrow> RequestStatusKeyArg list \<Rightarrow> world \<Rightarrow> world" where
  "clearRequestStatus requestKey keyedByArgs w =
     w\<lparr>store := (store w)(getKey requestKey keyedByArgs := None)\<rparr>"

text \<open>
  \<open>getRequestStatus\<close>: evaluating the computed status creates the key's debouncer when
  there is none, and hands out the debouncer, whose getters are the status.
\<close>

definition getRequestStatus_touch :: "string \<Rightarrow> RequestStatusKeyArg list \<Rightarrow> world \<Rightarrow> world" where
  "getRequestStatus_touch requestKey keyedByArgs w =
     ensure_debouncer (getKey requestKey keyedByArgs) w"

definition getRequestStatus ::
  "string \<Rightarrow> RequestStatusKeyArg list \<Rightarrow> world \<Rightarrow> ApiRequestDebouncer" where
  "getRequestStatus requestKey keyedByArgs w =
     (let w' = getRequestStatus_touch requestKey keyedByArgs w
      in case store w' (getKey requestKey keyedByArgs) of
           None \<Rightarrow> new_ApiRequestDebouncer
         | Some a \<Rightarrow> debouncers w' ! a)"

text \<open>What the environment and the callers can do, one atomic stretch each.\<close>

datatype action =
    Dispatch string ApiRequestDescription RequestUlid date
  | DelayElapsed cid
  | ApiSettles cid "js_error + AxiosResponse" date
  | HookSettles cid date
  | ClearRequestStatus string "RequestStatusKeyArg list"
  | GetRequestStatus string "RequestStatusKeyArg list"

fun step :: "world \<Rightarrow> action \<Rightarrow> world" where
  "step w (Dispatch actionName spec requestUlid now) =
     wrappedActionFn actionName spec requestUlid now w"
| "step w (DelayElapsed c) =
     (if c < length (calls w) \<and> c_pc (calls w ! c) = AwaitDelay
      then resume c (issue_call c) w else w)"
| "step w (ApiSettles c outcome now) =
     (if c < length (calls w) \<and> c_pc (calls w ! c) = AwaitApi
      then resume c (\<lambda>cl. on_api_settled c cl outcome now) w else w)"
| "step w (HookSettles c now) =
     (if c < length (calls w) then resume c (\<lambda>cl. on_hook_settled c cl now) w else w)"
| "step w (ClearRequestStatus requestKey keyedByArgs) =
     clearRequestStatus requestKey keyedByArgs w"
| "step w (GetRequestStatus requestKey keyedByArgs) =
     getRequestStatus_touch requestKey keyedByArgs w"

definition run :: "world \<Rightarrow> action list \<Rightarrow> world" where
  "run w acts = foldl step w acts"

text \<open>The worlds the layer can be in: from an empty store, by any actions.\<close>

inductive reachable :: "world \<Rightarrow> bool" where
  reachable_init: "reachable (init_world dly)"
| reachable_step: "reachable w \<Longrightarrow> reachable (step w act)"

section \<open>\<open>fireActionResult\<close>\<close>

text \<open>
  What the caller's \<open>await\<close> yields once settled: a value, \<open>undefined\<close> (the
  deduplication path found a record without a promise), or a thrown error.
\<close>

definition awaited_outcome :: "world \<Rightarrow> awaited \<Rightarrow> (js_error + trigger_result option) option" where
  "awaited_outcome w aw =
     (case aw of
        AwaitsCall c \<Rightarrow>
          (case c_pc (calls w ! c) of
             ReturnedTry v \<Rightarrow> Some (Inr (Some v))
           | ReturnedCatch v \<Rightarrow> Some (Inr (Some v))
           | ThrewInCatch e \<Rightarrow> Some (Inl e)
           | ThrewBeforeTry e \<Rightarrow> Some (Inl e)
           | _ \<Rightarrow> None)
      | AwaitsPromise None \<Rightarrow> Some (Inr None)
      | AwaitsPromise (Some p) \<Rightarrow>
          (case promises w ! p of None \<Rightarrow> None | Some v \<Rightarrow> Some (Inr (Some v))))"

text \<open>
  \<open>fireActionResult\<close> after its \<open>await\<close>: a rejection of \<open>triggerApiRequest\<close>
  leaves it as it came, a missing result throws, a result with an \<open>error\<close> sets the
  failed result, any other sets the successful one.
\<close>

definition fireActionResult ::
  "ApiRequest \<Rightarrow> js_error + trigger_result option \<Rightarrow> js_error + ApiRequest" where
  "fireActionResult req triggerResult =
     (case triggerResult of
        Inl thrown \<Rightarrow> Inl thrown
      | Inr None \<Rightarrow> Inl (Error ''No trigger result'')
      | Inr (Some (TError e)) \<Rightarrow> Inr (setFailedResult e req)
      | Inr (Some (TData d)) \<Rightarrow> Inr (setSuccessfulResult d req))"

section \<open>The response interceptors of \<open>sdfApiInstance\<close> (apis.ts)\<close>

datatype toast_component = FiveHundredError json | MaintenanceMode | UnscheduledDowntime

text \<open>
  What an interceptor does besides passing the response on: a toast with its timeout in
  milliseconds (\<open>None\<close> for \<open>timeout: false\<close>), a tracked event, a redirect after a
  delay, a change of the active change set. (The \<open>requestUrl\<close> property of the 500
  toast, read from \<open>error.config\<close>, is left out.)
\<close>

datatype ui_effect =
    Toast toast_component "nat option"
  | TrackEvent string
  | RedirectAfter nat string
  | SetActiveChangeset string

type_synonym settled = "js_error + AxiosResponse"

definition handleForcedChangesetRedirection :: "AxiosResponse \<Rightarrow> ui_effect list \<times> settled" where
  "handleForcedChangesetRedirection resp =
     ((case map_of (headers resp) ''force_change_set_id'' of
         None \<Rightarrow> []
       | Some h \<Rightarrow> if h = [] then [] else [SetActiveChangeset h]),
      Inr resp)"

definition handleProxyTimeouts :: "AxiosResponse \<Rightarrow> ui_effect list \<times> settled" where
  "handleProxyTimeouts resp =
     ((if status resp = Some 404 \<and>
          map_of (headers resp) ''content-type'' \<noteq> Some ''application/json''
       then [TrackEvent ''api_404_timeout'', RedirectAfter 500 ''/oops'']
       else []),
      Inr resp)"

definition handle500 :: "js_error \<Rightarrow> ui_effect list \<times> settled" where
  "handle500 e =
     ((case response e of
         None \<Rightarrow> []
       | Some resp \<Rightarrow>
           if status resp = Some 500 then [Toast (FiveHundredError (data resp)) None] else []),
      Inl e)"

definition handleOutageModes :: "js_error \<Rightarrow> ui_effect list \<times> settled" where
  "handleOutageModes e =
     ((case response e of
         None \<Rightarrow> []
       | Some resp \<Rightarrow>
           if status resp = Some 503 then [Toast MaintenanceMode (Some 15000)]
           else if status resp = Some 502 \<or> status resp = Some 504
           then [Toast UnscheduledDowntime (Some 15000)]
           else []),
      Inl e)"

text \<open>
  \<open>interceptors.response.use(onFulfilled, onRejected)\<close> chains
  \<open>promise.then(onFulfilled, onRejected)\<close>: a fulfilled response goes to the first
  handler, a rejection to the second.
\<close>

definition use_interceptor ::
  "(AxiosResponse \<Rightarrow> ui_effect list \<times> settled) \<Rightarrow> (js_error \<Rightarrow> ui_effect list \<times> settled) \<Rightarrow>
   ui_effect list \<times> settled \<Rightarrow> ui_effect list \<times> settled" where
  "use_interceptor onFulfilled onRejected st =
     (case st of
        (done, Inr resp) \<Rightarrow> (case onFulfilled resp of (es, s) \<Rightarrow> (done @ es, s))
      | (done, Inl e) \<Rightarrow> (case onRejected e of (es, s) \<Rightarrow> (done @ es, s)))"

text \<open>The two registrations on \<open>sdfApiInstance\<close>, in the order of the file.\<close>

definition sdf_response_interceptors :: "settled \<Rightarrow> ui_effect list \<times> settled" where
  "sdf_response_interceptors s =
     use_interceptor handleForcedChangesetRedirection handleOutageModes
       (use_interceptor handleProxyTimeouts handle500 ([], s))"

text \<open>
  How axios settles a received response before any interceptor runs: it fulfils when
  the status is falsy or \<open>validateStatus\<close> accepts it, and rejects with an \<open>AxiosError\<close> carrying the
  response otherwise. \<open>sdfApiInstance\<close> is created with headers and a base URL only, so
  it has axios's default \<open>validateStatus\<close>, which accepts 2xx; in the words of
  \<open>triggerApiRequest\<close>, "axios throws an error if http status >= 400".
\<close>

definition settle :: "(nat \<Rightarrow> bool) \<Rightarrow> AxiosResponse \<Rightarrow> settled" where
  "settle validateStatus resp =
     (case status resp of
        None \<Rightarrow> Inr resp
      | Some st \<Rightarrow>
          if st = 0 \<or> validateStatus st then Inr resp
          else Inl \<lparr>is_axios = True, message = ''Request failed with status code '' @ string_of_nat st,
                    response = Some resp\<rparr>)"

definition default_validateStatus :: "nat \<Rightarrow> bool" where
  "default_validateStatus st = (200 \<le> st \<and> st < 300)"

definition sdfApiInstance_receive :: "AxiosResponse \<Rightarrow> ui_effect list \<times> settled" where
  "sdfApiInstance_receive resp = sdf_response_interceptors (settle default_validateStatus resp)"

section \<open>What the plugin gives a store\<close>

text \<open>
  The members that the declaration of \<open>PiniaCustomProperties\<close> promises on every store
  that uses the plugin.
\<close>

definition PiniaCustomProperties :: "string list" where
  "PiniaCustomProperties =
     [''getRequestStatus'', ''getRequestStatuses'', ''clearRequestStatus'', ''RETRY_CONFLICT'']"

text \<open>
  The members of the object the plugin returns for a store, which are the ones the store
  gets: the three functions of the read side and \<open>...apiRequestActions\<close>, one wrapped
  action for every action of the store's options. Besides \<open>store.apiRequestDebouncers\<close>
  the plugin keeps no state.
\<close>

definition plugin_returns :: "string list \<Rightarrow> string list" where
  "plugin_returns actionNames =
     [''getRequestStatus'', ''getRequestStatuses'', ''clearRequestStatus''] @ actionNames"

section \<open>Sample requests and responses\<close>

definition plain_get :: ApiRequestDescription where
  "plain_get =
     \<lparr>http_method = Some Get, url = Some (UrlString ''/session''), params = None, formData = None,
      keyRequestStatusBy = None, onSuccess = None, onNewChangeSet = None, onFail = None,
      optimistic = None, delay = None\<rparr>"

definition network_error :: js_error where
  "network_error = \<lparr>is_axios = True, message = ''Network Error'', response = None\<rparr>"

definition response_with :: "nat \<Rightarrow> (string \<times> string) list \<Rightarrow> json \<Rightarrow> AxiosResponse" where
  "response_with st hs body = \<lparr>status = Some st, headers = hs, data = body\<rparr>"

definition http_error :: "nat \<Rightarrow> json \<Rightarrow> js_error" where
  "http_error st body =
     \<lparr>is_axios = True, message = ''Request failed'', response = Some (response_with st [] body)\<rparr>"

definition sample_rollback :: rollbackFn where
  "sample_rollback = \<lparr>rb_id = 7, rb_call = Inr ()\<rparr>"


definition with_rollback :: ApiRequestDescription where
  "with_rollback = plain_get\<lparr>optimistic := Some (\<lambda>requestUlid. Inr (Some sample_rollback))\<rparr>"

definition failing_onSuccess :: ApiRequestDescription where
  "failing_onSuccess =
     with_rollback\<lparr>onSuccess := Some (\<lambda>body. Inl (Error ''store update failed''))\<rparr>"

definition switching_get :: ApiRequestDescription where
  "switching_get =
     plain_get\<lparr>onNewChangeSet := Some (\<lambda>changeSetId body. Inr ()),
               onSuccess := Some (\<lambda>body. Inr ())\<rparr>"

definition login_post :: ApiRequestDescription where
  "login_post =
     plain_get\<lparr>http_method := Some Post,
               params := Some (fmupd ''email'' (JStr ''a@b.c'') fmempty)\<rparr>"

text \<open>The description of a request dispatched before, as the dispatch left it.\<close>

definition resent_login :: ApiRequestDescription where
  "resent_login = plain_get\<lparr>params := Some (fmupd ''requestUlid'' (JStr ''01'') fmempty)\<rparr>"

section \<open>Reading the trace and the world\<close>

text \<open>The call an event belongs to.\<close>

fun log_cid :: "log_event \<Rightarrow> cid" where
  "log_cid (LOptimistic c u) = c"
| "log_cid (LPhysicalCall c m u q b) = c"
| "log_cid (LNewChangeSet c h d) = c"
| "log_cid (LOnSuccess c d) = c"
| "log_cid (LRollback c n) = c"
| "log_cid (LOnFail c e) = c"

fun is_rollback_of :: "cid \<Rightarrow> log_event \<Rightarrow> bool" where
  "is_rollback_of c (LRollback c' n) = (c' = c)"
| "is_rollback_of c other = False"

fun is_onSuccess_of :: "cid \<Rightarrow> log_event \<Rightarrow> bool" where
  "is_onSuccess_of c (LOnSuccess c' d) = (c' = c)"
| "is_onSuccess_of c other = False"

fun is_physical_call :: "log_event \<Rightarrow> bool" where
  "is_physical_call (LPhysicalCall c m u q b) = True"
| "is_physical_call other = False"

text \<open>How often the rollback of call \<open>c\<close> has been invoked.\<close>

definition rollbacks :: "cid \<Rightarrow> log_event list \<Rightarrow> nat" where
  "rollbacks c evs = length (filter (is_rollback_of c) evs)"

text \<open>How often \<open>onSuccess\<close> of call \<open>c\<close> has been invoked.\<close>

definition successes :: "cid \<Rightarrow> log_event list \<Rightarrow> nat" where
  "successes c evs = length (filter (is_onSuccess_of c) evs)"

text \<open>The call has left through its \<open>catch\<close> block.\<close>

fun in_catch :: "pc \<Rightarrow> bool" where
  "in_catch (ReturnedCatch v) = True"
| "in_catch (ThrewInCatch e) = True"
| "in_catch other = False"

text \<open>The call has not yet passed the point where \<open>onSuccess\<close> is called.\<close>

fun before_onSuccess :: "pc \<Rightarrow> bool" where
  "before_onSuccess AwaitDelay = True"
| "before_onSuccess AwaitApi = True"
| "before_onSuccess (AwaitNewChangeSet resp h) = True"
| "before_onSuccess (ThrewBeforeTry e) = True"
| "before_onSuccess other = False"

text \<open>The value a call has returned, if it has.\<close>

fun returned :: "pc \<Rightarrow> trigger_result option" where
  "returned (ReturnedTry v) = Some v"
| "returned (ReturnedCatch v) = Some v"
| "returned other = None"

definition settled_at :: "pid \<Rightarrow> trigger_result \<Rightarrow> world \<Rightarrow> bool" where
  "settled_at p v w = (p < length (promises w) \<and> promises w ! p = Some v)"

text \<open>The events of each stretch, read off the closure.\<close>

definition onFail_events :: "cid \<Rightarrow> call \<Rightarrow> js_error \<Rightarrow> log_event list" where
  "onFail_events c cl e = (case onFail (c_spec cl) of None \<Rightarrow> [] | Some h \<Rightarrow> [LOnFail c e])"

definition catch_events :: "cid \<Rightarrow> call \<Rightarrow> js_error \<Rightarrow> log_event list" where
  "catch_events c cl e =
     (case c_rollback cl of
        None \<Rightarrow> onFail_events c cl e
      | Some rb \<Rightarrow>
          LRollback c (rb_id rb) #
            (case rb_call rb of Inl thrown \<Rightarrow> [] | Inr u \<Rightarrow> onFail_events c cl e))"

definition mark_events :: "cid \<Rightarrow> call \<Rightarrow> AxiosResponse \<Rightarrow> log_event list" where
  "mark_events c cl resp =
     (case onSuccess (c_spec cl) of None \<Rightarrow> [] | Some g \<Rightarrow> [LOnSuccess c (data resp)])"

text \<open>Whether a response makes the call invoke the context-switch hook, and with what.\<close>

definition context_switch :: "call \<Rightarrow> AxiosResponse \<Rightarrow> (string \<times> (js_error + unit)) option" where
  "context_switch cl resp =
     (case map_of (headers resp) ''force_change_set_id'' of
        None \<Rightarrow> None
      | Some h \<Rightarrow>
          if h = [] then None
          else (case onNewChangeSet (c_spec cl) of
                  None \<Rightarrow> None
                | Some f \<Rightarrow> Some (h, f h (data resp))))"

definition api_events :: "cid \<Rightarrow> call \<Rightarrow> js_error + AxiosResponse \<Rightarrow> log_event list" where
  "api_events c cl outcome =
     (case outcome of
        Inl e \<Rightarrow> catch_events c cl e
      | Inr resp \<Rightarrow>
          (case context_switch cl resp of
             None \<Rightarrow> mark_events c cl resp
           | Some (h, settles) \<Rightarrow> [LNewChangeSet c h (data resp)]))"

definition hook_events :: "cid \<Rightarrow> call \<Rightarrow> log_event list" where
  "hook_events c cl =
     (case c_pc cl of
        AwaitNewChangeSet resp (Inr u) \<Rightarrow> mark_events c cl resp
      | AwaitNewChangeSet resp (Inl e) \<Rightarrow> catch_events c cl e
      | AwaitOnSuccess resp (Inl e) \<Rightarrow> catch_events c cl e
      | other \<Rightarrow> [])"

text \<open>The views of the debouncers that the stretches of a call leave alone.\<close>

definition lsa_view :: "world \<Rightarrow> date option list" where
  "lsa_view w = map get_lastSuccessAt (debouncers w)"

definition requested_view :: "world \<Rightarrow> bool list" where
  "requested_view w = map isRequested (debouncers w)"

definition completed_view :: "world \<Rightarrow> pid option list" where
  "completed_view w = map get_completed (debouncers w)"

text \<open>The actions that continue a call in flight.\<close>

fun is_completion :: "action \<Rightarrow> bool" where
  "is_completion (DelayElapsed c) = True"
| "is_completion (ApiSettles c outcome now) = True"
| "is_completion (HookSettles c now) = True"
| "is_completion other = False"

text \<open>The actions that clear the status of key \<open>k\<close>, and those that dispatch on it.\<close>

fun is_clear_of :: "string \<Rightarrow> action \<Rightarrow> bool" where
  "is_clear_of k (ClearRequestStatus requestKey keyedByArgs) = (getKey requestKey keyedByArgs = k)"
| "is_clear_of k other = False"

fun is_dispatch_of :: "string \<Rightarrow> action \<Rightarrow> bool" where
  "is_dispatch_of k (Dispatch actionName spec requestUlid now) = (getTrackingKey actionName spec = k)"
| "is_dispatch_of k other = False"

section \<open>Invariants of the reachable worlds\<close>

text \<open>Every address the store hands out is a debouncer.\<close>

definition store_ok :: "world \<Rightarrow> bool" where
  "store_ok w = (\<forall>k a. store w k = Some a \<longrightarrow> a < length (debouncers w))"

text \<open>
  The key is idle: the debouncer the store holds for it, if any, has no record and is the
  debouncer of no other key.
\<close>

definition idle_key :: "string \<Rightarrow> world \<Rightarrow> bool" where
  "idle_key k w =
     (\<forall>a. store w k = Some a \<longrightarrow>
        \<not> isRequested (debouncers w ! a) \<and> (\<forall>k'. store w k' = Some a \<longrightarrow> k' = k))"

text \<open>
  Every call has its debouncer, which holds a record (the call's own or a later one), and
  its promise.
\<close>

definition calls_ok :: "world \<Rightarrow> bool" where
  "calls_ok w =
     (\<forall>c < length (calls w).
        c_this (calls w ! c) < length (debouncers w) \<and>
        isRequested (debouncers w ! c_this (calls w ! c)) \<and>
        c_completed (calls w ! c) < length (promises w))"

text \<open>Every event of the trace belongs to a call that exists.\<close>

definition log_ok :: "world \<Rightarrow> bool" where
  "log_ok w = (\<forall>e \<in> set (log w). log_cid e < length (calls w))"

text \<open>
  A rollback has been invoked once if the call captured one and has left through its
  \<open>catch\<close> block, and not at all otherwise.
\<close>

definition rollbacks_ok :: "world \<Rightarrow> bool" where
  "rollbacks_ok w =
     (\<forall>c < length (calls w).
        rollbacks c (log w) =
          (if in_catch (c_pc (calls w ! c)) \<and> c_rollback (calls w ! c) \<noteq> None then 1 else 0))"

definition successes_ok :: "world \<Rightarrow> bool" where
  "successes_ok w =
     (\<forall>c < length (calls w). before_onSuccess (c_pc (calls w ! c)) \<longrightarrow> successes c (log w) = 0)"

text \<open>A call that has returned a value has returned what its promise holds.\<close>

definition returned_ok :: "world \<Rightarrow> bool" where
  "returned_ok w =
     (\<forall>c < length (calls w). \<forall>v.
        returned (c_pc (calls w ! c)) = Some v \<longrightarrow> settled_at (c_completed (calls w ! c)) v w)"

text \<open>
  The promise of a debouncer's record is the promise of a call on that debouncer, whose
  caller awaits the call.
\<close>

definition completed_ok :: "world \<Rightarrow> bool" where
  "completed_ok w =
     (\<forall>a < length (debouncers w).
        isRequested (debouncers w ! a) \<longrightarrow>
        (\<exists>c < length (calls w).
           c_this (calls w ! c) = a \<and>
           get_completed (debouncers w ! a) = Some (c_completed (calls w ! c)) \<and>
           AwaitsCall c \<in> set (callers w)))"

text \<open>What the stretches of a call have in common: they touch neither the store nor the
  callers nor the calls, and keep every debouncer's record in place.\<close>

definition stretch_ok :: "(call \<Rightarrow> world \<Rightarrow> pc \<times> world) \<Rightarrow> bool" where
  "stretch_ok k =
     (\<forall>cl w.
        store (snd (k cl w)) = store w \<and> callers (snd (k cl w)) = callers w \<and>
        delay_env (snd (k cl w)) = delay_env w \<and> calls (snd (k cl w)) = calls w \<and>
        length (debouncers (snd (k cl w))) = length (debouncers w) \<and>
        length (promises (snd (k cl w))) = length (promises w) \<and>
        requested_view (snd (k cl w)) = requested_view w \<and>
        completed_view (snd (k cl w)) = completed_view w \<and>
        (\<forall>p v. settled_at p v w \<longrightarrow> settled_at p v (snd (k cl w))))"

text \<open>The relation between a call's place before a stretch, its place after, and the
  events of the stretch.\<close>

definition stretch_step :: "cid \<Rightarrow> call \<Rightarrow> pc \<Rightarrow> log_event list \<Rightarrow> bool" where
  "stretch_step c cl p es =
     ((\<forall>e \<in> set es. log_cid e = c) \<and>
      rollbacks c es =
        (if in_catch p \<and> \<not> in_catch (c_pc cl) \<and> c_rollback cl \<noteq> None then 1 else 0) \<and>
      (in_catch (c_pc cl) \<longrightarrow> in_catch p) \<and>
      (before_onSuccess p \<longrightarrow> before_onSuccess (c_pc cl) \<and> successes c es = 0))"


text \<open>
  The hooks a successful response calls return normally: the context-switch hook when
  the response triggers it, and \<open>onSuccess\<close> when the description has one.
\<close>

definition hooks_return :: "call \<Rightarrow> AxiosResponse \<Rightarrow> bool" where
  "hooks_return cl resp =
     ((case context_switch cl resp of None \<Rightarrow> True | Some (h, settles) \<Rightarrow> settles = Inr ()) \<and>
      (case onSuccess (c_spec cl) of None \<Rightarrow> True | Some g \<Rightarrow> g (data resp) = Inr ()))"

text \<open>The places of a call whose response was successful and whose hooks return.\<close>

fun success_path :: "ApiRequestDescription \<Rightarrow> pc \<Rightarrow> bool" where
  "success_path spec (AwaitNewChangeSet resp settles) =
     (settles = Inr () \<and>
      (case onSuccess spec of None \<Rightarrow> True | Some g \<Rightarrow> g (data resp) = Inr ()))"
| "success_path spec (AwaitOnSuccess resp settles) = (settles = Inr ())"
| "success_path spec (ReturnedTry v) = True"
| "success_path spec other = False"

section \<open>Unfolding the model\<close>

lemmas world_defs = wrappedActionFn_def ensure_debouncer_def triggerApiRequest_start_def
  start_call_def dedup_hit_def resolve_url_def wants_delay_def issue_call_def resume_def
  add_log_def set_request_def init_world_def new_ApiRequestDebouncer_def on_api_settled_def
  catch_block_def catch_onFail_def catch_store_and_return_def mark_received_def
  finish_success_def resolve_and_return_def resolve_def on_hook_settled_def
  clearRequestStatus_def getRequestStatus_touch_def getRequestStatus_def run_def
  getTrackingKey_def getKey_def js_join_def compact_def TRACKING_KEY_SEPARATOR_def
  get_lastSuccessAt_def get_completed_def

lemmas sample_defs = plain_get_def network_error_def response_with_def http_error_def
  sample_rollback_def with_rollback_def failing_onSuccess_def switching_get_def
  resent_login_def login_post_def

lemmas eval_defs = world_defs sample_defs Let_def

lemmas interceptor_defs = sdfApiInstance_receive_def sdf_response_interceptors_def
  use_interceptor_def settle_def default_validateStatus_def handle500_def
  handleOutageModes_def handleProxyTimeouts_def handleForcedChangesetRedirection_def

section \<open>Tracking keys: dispatch side against read side\<close>

lemma string_of_int_0: "string_of_int 0 = ''0''"
  by (simp add: string_of_int_def string_of_nat.simps digit_char_def)

text \<open>
  Where every discriminator is truthy, the key of the dispatch side and the key of the
  read side are the same string.
\<close>

lemma keys_agree_on_truthy:
  assumes "\<forall>k \<in> set ks. key_truthy k"
  shows "getTrackingKey actionName (spec\<lparr>keyRequestStatusBy := Some (KeyArray ks)\<rparr>)
           = getKey actionName (map Raw ks)"
proof -
  have "map unref (map Raw ks) = ks" by (induction ks) auto
  moreover have "filter key_truthy ks = ks" using assms by (simp add: filter_id_conv)
  ultimately show ?thesis by (simp add: getTrackingKey_def getKey_def compact_def)
qed

text \<open>
  C3. The claim: for every action name and sequence of discriminators the key computed at
  dispatch (\<open>getTrackingKey\<close>) equals the key computed on the read side (\<open>getKey\<close>),
  both dropping absent and empty discriminators. The code at the discriminator list
  \<open>[0]\<close>, and at \<open>[null, "x"]\<close>: only \<open>getKey\<close> compacts, \<open>getTrackingKey\<close>
  pushes the array as it is, so the dispatch writes under \<open>GET_THING%0\<close> (and
  \<open>GET_THING%%x\<close>) what the read side looks up under \<open>GET_THING\<close> (and
  \<open>GET_THING%x\<close>).
\<close>

theorem tracking_key_differs_from_read_key:
  "getTrackingKey ''GET_THING'' (plain_get\<lparr>keyRequestStatusBy := Some (KeyArray [KNum 0])\<rparr>)
     = ''GET_THING%0'' \<and>
   getKey ''GET_THING'' [Raw (KNum 0)] = ''GET_THING'' \<and>
   getTrackingKey ''GET_THING'' (plain_get\<lparr>keyRequestStatusBy := Some (KeyArray [KNull, KStr ''x''])\<rparr>)
     = ''GET_THING%%x'' \<and>
   getKey ''GET_THING'' [Raw KNull, Raw (KStr ''x'')] = ''GET_THING%x''"
  by (simp add: getTrackingKey_def getKey_def js_join_def compact_def
      TRACKING_KEY_SEPARATOR_def plain_get_def string_of_int_0)

section \<open>The \<open>result\<close> getter\<close>

text \<open>
  C10. Reading \<open>result\<close> before \<open>setSuccessfulResult\<close> or \<open>setFailedResult\<close> has
  run throws; once \<open>fireActionResult\<close> has returned, \<open>result\<close> is either
  \<open>{success: true, data}\<close> with the response data, or \<open>{success: false, err}\<close>, which
  for an \<open>AxiosError\<close> also carries \<open>errBody\<close> and \<open>statusCode\<close>, the data and the
  status of the error's response when it has one.
\<close>

theorem result_before_and_after:
  "result (new_ApiRequest spec) = Inl (Error ''You must await the request to access the result'') \<and>
   (rawSuccess req = None \<longrightarrow>
      result req = Inl (Error ''You must await the request to access the result'')) \<and>
   (fireActionResult req triggerResult = Inr req' \<longrightarrow>
      (\<exists>d. triggerResult = Inr (Some (TData d)) \<and> result req' = Inr (Success d)) \<or>
      (\<exists>e. triggerResult = Inr (Some (TError e)) \<and>
           result req' = Inr (Failure (Some e)
                               (if is_axios e then Some (errBody e, statusCode e) else None)) \<and>
           (\<forall>resp. response e = Some resp \<longrightarrow> errBody e = data resp \<and> statusCode e = status resp)))"
proof (intro conjI impI)
  show "result (new_ApiRequest spec) = Inl (Error ''You must await the request to access the result'')"
    by (simp add: result_def new_ApiRequest_def)
  show "result req = Inl (Error ''You must await the request to access the result'')"
    if "rawSuccess req = None" using that by (simp add: result_def)
  show "(\<exists>d. triggerResult = Inr (Some (TData d)) \<and> result req' = Inr (Success d)) \<or>
      (\<exists>e. triggerResult = Inr (Some (TError e)) \<and>
           result req' = Inr (Failure (Some e)
                               (if is_axios e then Some (errBody e, statusCode e) else None)) \<and>
           (\<forall>resp. response e = Some resp \<longrightarrow> errBody e = data resp \<and> statusCode e = status resp))"
    if h: "fireActionResult req triggerResult = Inr req'"
  proof (cases triggerResult)
    case (Inl thrown)
    with h show ?thesis by (simp add: fireActionResult_def)
  next
    case (Inr v)
    show ?thesis
    proof (cases v)
      case None
      with h Inr show ?thesis by (simp add: fireActionResult_def)
    next
      case (Some tr)
      show ?thesis
      proof (cases tr)
        case (TData d)
        with h Inr Some have "req' = setSuccessfulResult d req" by (simp add: fireActionResult_def)
        then have "result req' = Inr (Success d)" by (simp add: result_def setSuccessfulResult_def)
        with Inr Some TData show ?thesis by simp
      next
        case (TError e)
        with h Inr Some have "req' = setFailedResult e req" by (simp add: fireActionResult_def)
        then have "result req' = Inr (Failure (Some e)
                               (if is_axios e then Some (errBody e, statusCode e) else None))"
          by (simp add: result_def setFailedResult_def)
        moreover have "\<forall>resp. response e = Some resp \<longrightarrow> errBody e = data resp \<and> statusCode e = status resp"
          by (simp add: errBody_def statusCode_def)
        ultimately show ?thesis using Inr Some TError by simp
      qed
    qed
  qed
qed

theorem result_before_and_after_witness:
  "result (new_ApiRequest plain_get) = Inl (Error ''You must await the request to access the result'') \<and>
   fireActionResult (new_ApiRequest plain_get) (Inr (Some (TError (http_error 409 JNull))))
     = Inr (setFailedResult (http_error 409 JNull) (new_ApiRequest plain_get)) \<and>
   result (setFailedResult (http_error 409 JNull) (new_ApiRequest plain_get))
     = Inr (Failure (Some (http_error 409 JNull)) (Some (JNull, Some 409)))"
proof -
  have f: "fireActionResult (new_ApiRequest plain_get) (Inr (Some (TError (http_error 409 JNull))))
     = Inr (setFailedResult (http_error 409 JNull) (new_ApiRequest plain_get))"
    by (simp add: fireActionResult_def)
  have ax: "is_axios (http_error 409 JNull)" "errBody (http_error 409 JNull) = JNull"
    "statusCode (http_error 409 JNull) = Some 409"
    by (simp_all add: http_error_def response_with_def errBody_def statusCode_def)
  from result_before_and_after [of plain_get "new_ApiRequest plain_get"
      "Inr (Some (TError (http_error 409 JNull)))"
      "setFailedResult (http_error 409 JNull) (new_ApiRequest plain_get)"] f ax
  show ?thesis by simp
qed

section \<open>A transport error\<close>

text \<open>
  C2. The claim: when the transport call fails without a response, the synthesized error
  body is stored on the record, the caller's result is a failure, and nothing is thrown
  (\<open>fireActionResult\<close> returns). The code, for a request without hooks whose call is
  rejected with a network error: the transport was called once, the synthesized body is
  stored and the promise is resolved with the error, but the \<open>catch\<close> block then reads
  \<open>err.response.status\<close> of the missing response and throws; \<open>triggerApiRequest\<close>
  rejects, and with it \<open>fireActionResult\<close>, before any result is set.
\<close>

theorem transport_error_rejects:
  "(let w = run (init_world False)
              [Dispatch ''LOGIN'' plain_get ''01'' 1, ApiSettles 0 (Inl network_error) 2]
    in log w = [LPhysicalCall 0 (Some Get) ''/session''
                  (Some (fmupd ''requestUlid'' (JStr ''01'') fmempty)) None] \<and>
       map_option error (request (debouncers w ! 0))
         = Some (Some (synthesized_error ''Network Error'')) \<and>
       promises w = [Some (TError network_error)] \<and>
       callers w = [AwaitsCall 0] \<and>
       c_pc (calls w ! 0) = ThrewInCatch undefined_read \<and>
       awaited_outcome w (AwaitsCall 0) = Some (Inl undefined_read) \<and>
       fireActionResult (new_ApiRequest plain_get) (Inl undefined_read) = Inl undefined_read)"
  by (simp add: world_defs sample_defs Let_def awaited_outcome_def fireActionResult_def)

section \<open>Response status classes\<close>

text \<open>The error statuses reach their toasts through the rejection handlers.\<close>

lemma error_statuses_classified:
  "fst (sdfApiInstance_receive (response_with 500 hs body)) = [Toast (FiveHundredError body) None]"
  "fst (sdfApiInstance_receive (response_with 502 hs body)) = [Toast UnscheduledDowntime (Some 15000)]"
  "fst (sdfApiInstance_receive (response_with 504 hs body)) = [Toast UnscheduledDowntime (Some 15000)]"
  "fst (sdfApiInstance_receive (response_with 503 hs body)) = [Toast MaintenanceMode (Some 15000)]"
  by (simp_all add: interceptor_defs response_with_def)

text \<open>
  A response that axios rejects (its status is not falsy and \<open>validateStatus\<close> refuses
  it) never reaches \<open>handleProxyTimeouts\<close>, which is
  registered as the handler of fulfilled responses.
\<close>

lemma rejected_never_reaches_proxy_check:
  assumes "status resp = Some st" "st \<noteq> 0" "\<not> validateStatus st"
  shows "TrackEvent ''api_404_timeout''
           \<notin> set (fst (sdf_response_interceptors (settle validateStatus resp)))"
  using assms
  by (auto simp: sdf_response_interceptors_def use_interceptor_def settle_def handle500_def
      handleOutageModes_def)

text \<open>
  C9. The claim: 500 takes the generic-failure toast, 502 and 504 the unscheduled
  downtime toast, 503 the maintenance toast, and a 404 whose content type is not JSON is
  tracked as \<open>api_404_timeout\<close> and followed by a delayed redirect. The code on a 404
  with content type \<open>text/html\<close>: \<open>handleProxyTimeouts\<close>, handed that response, does
  track and redirect; but \<open>sdfApiInstance\<close> rejects a 404 before its interceptors run,
  the rejection passes \<open>handle500\<close> and \<open>handleOutageModes\<close>, and nothing is tracked.
\<close>

theorem proxy_timeout_never_classified:
  "fst (handleProxyTimeouts (response_with 404 [(''content-type'', ''text/html'')] (JStr ''nginx'')))
     = [TrackEvent ''api_404_timeout'', RedirectAfter 500 ''/oops''] \<and>
   fst (sdfApiInstance_receive (response_with 404 [(''content-type'', ''text/html'')] (JStr ''nginx'')))
     = []"
  by (simp add: interceptor_defs response_with_def)

section \<open>What each stretch leaves alone\<close>

lemma upd_same:
  assumes "a < length xs \<Longrightarrow> xs ! a = v"
  shows "xs[a := v] = xs"
proof (cases "a < length xs")
  case True
  with assms show ?thesis by (simp add: list_update_same_conv)
next
  case False
  then show ?thesis by (simp add: not_less list_update_beyond)
qed

lemma view_upd_same [simp]:
  assumes "request (debouncers w ! a) = Some r0"
  shows "(lsa_view w)[a := lastSuccessAt r0] = lsa_view w"
    "(requested_view w)[a := True] = requested_view w"
    "(completed_view w)[a := completed r0] = completed_view w"
  using assms
  by (auto intro!: upd_same
      simp: lsa_view_def requested_view_def completed_view_def get_lastSuccessAt_def
        get_completed_def isRequested_def)

lemma add_log_frame [simp]:
  "store (add_log e w) = store w" "debouncers (add_log e w) = debouncers w"
  "promises (add_log e w) = promises w" "callers (add_log e w) = callers w"
  "log (add_log e w) = log w @ [e]" "delay_env (add_log e w) = delay_env w"
  "calls (add_log e w) = calls w"
  "lsa_view (add_log e w) = lsa_view w" "requested_view (add_log e w) = requested_view w"
  "completed_view (add_log e w) = completed_view w"
  "settled_at p v (add_log e w) = settled_at p v w"
  by (simp_all add: add_log_def lsa_view_def requested_view_def completed_view_def
      settled_at_def)

lemma resolve_frame [simp]:
  "store (resolve p v w) = store w" "debouncers (resolve p v w) = debouncers w"
  "callers (resolve p v w) = callers w"
  "log (resolve p v w) = log w" "delay_env (resolve p v w) = delay_env w"
  "calls (resolve p v w) = calls w"
  "length (promises (resolve p v w)) = length (promises w)"
  "lsa_view (resolve p v w) = lsa_view w" "requested_view (resolve p v w) = requested_view w"
  "completed_view (resolve p v w) = completed_view w"
  by (simp_all add: resolve_def lsa_view_def requested_view_def completed_view_def)

lemma set_request_frame [simp]:
  "store (set_request a r w) = store w"
  "length (debouncers (set_request a r w)) = length (debouncers w)"
  "promises (set_request a r w) = promises w" "callers (set_request a r w) = callers w"
  "log (set_request a r w) = log w" "delay_env (set_request a r w) = delay_env w"
  "calls (set_request a r w) = calls w"
  "lsa_view (set_request a r w) = (lsa_view w)[a := lastSuccessAt r]"
  "requested_view (set_request a r w) = (requested_view w)[a := True]"
  "completed_view (set_request a r w) = (completed_view w)[a := completed r]"
  "settled_at p v (set_request a r w) = settled_at p v w"
  by (simp_all add: set_request_def lsa_view_def requested_view_def completed_view_def
      map_update get_lastSuccessAt_def get_completed_def isRequested_def settled_at_def)

lemma resolve_and_return_frame [simp]:
  "store (snd (resolve_and_return cl k v w)) = store w"
  "debouncers (snd (resolve_and_return cl k v w)) = debouncers w"
  "callers (snd (resolve_and_return cl k v w)) = callers w"
  "log (snd (resolve_and_return cl k v w)) = log w"
  "delay_env (snd (resolve_and_return cl k v w)) = delay_env w"
  "calls (snd (resolve_and_return cl k v w)) = calls w"
  "length (promises (snd (resolve_and_return cl k v w))) = length (promises w)"
  "lsa_view (snd (resolve_and_return cl k v w)) = lsa_view w"
  "requested_view (snd (resolve_and_return cl k v w)) = requested_view w"
  "completed_view (snd (resolve_and_return cl k v w)) = completed_view w"
  by (simp_all add: resolve_and_return_def Let_def)

lemma catch_store_and_return_frame [simp]:
  "store (snd (catch_store_and_return cl e w)) = store w"
  "length (debouncers (snd (catch_store_and_return cl e w))) = length (debouncers w)"
  "callers (snd (catch_store_and_return cl e w)) = callers w"
  "log (snd (catch_store_and_return cl e w)) = log w"
  "delay_env (snd (catch_store_and_return cl e w)) = delay_env w"
  "calls (snd (catch_store_and_return cl e w)) = calls w"
  "length (promises (snd (catch_store_and_return cl e w))) = length (promises w)"
  "lsa_view (snd (catch_store_and_return cl e w)) = lsa_view w"
  "requested_view (snd (catch_store_and_return cl e w)) = requested_view w"
  "completed_view (snd (catch_store_and_return cl e w)) = completed_view w"
  "in_catch (fst (catch_store_and_return cl e w))"
  by (simp_all add: catch_store_and_return_def resolve_and_return_def Let_def split: option.split)

lemma catch_onFail_frame [simp]:
  "store (snd (catch_onFail c cl e w)) = store w"
  "length (debouncers (snd (catch_onFail c cl e w))) = length (debouncers w)"
  "callers (snd (catch_onFail c cl e w)) = callers w"
  "delay_env (snd (catch_onFail c cl e w)) = delay_env w"
  "calls (snd (catch_onFail c cl e w)) = calls w"
  "length (promises (snd (catch_onFail c cl e w))) = length (promises w)"
  "lsa_view (snd (catch_onFail c cl e w)) = lsa_view w"
  "requested_view (snd (catch_onFail c cl e w)) = requested_view w"
  "completed_view (snd (catch_onFail c cl e w)) = completed_view w"
  "in_catch (fst (catch_onFail c cl e w))"
  "log (snd (catch_onFail c cl e w)) = log w @ onFail_events c cl e"
  by (simp_all add: catch_onFail_def onFail_events_def split: option.split sum.split)

lemma catch_block_frame [simp]:
  "store (snd (catch_block c cl e now w)) = store w"
  "length (debouncers (snd (catch_block c cl e now w))) = length (debouncers w)"
  "callers (snd (catch_block c cl e now w)) = callers w"
  "delay_env (snd (catch_block c cl e now w)) = delay_env w"
  "calls (snd (catch_block c cl e now w)) = calls w"
  "length (promises (snd (catch_block c cl e now w))) = length (promises w)"
  "lsa_view (snd (catch_block c cl e now w)) = lsa_view w"
  "requested_view (snd (catch_block c cl e now w)) = requested_view w"
  "completed_view (snd (catch_block c cl e now w)) = completed_view w"
  "in_catch (fst (catch_block c cl e now w))"
  by (simp_all add: catch_block_def Let_def split: option.split sum.split)

lemma catch_block_log [simp]:
  "isRequested (debouncers w ! c_this cl) \<Longrightarrow>
   log (snd (catch_block c cl e now w)) = log w @ catch_events c cl e"
  by (auto simp: catch_block_def catch_events_def isRequested_def Let_def
      split: option.split sum.split)

lemma finish_success_frame [simp]:
  "store (snd (finish_success cl resp w)) = store w"
  "debouncers (snd (finish_success cl resp w)) = debouncers w"
  "callers (snd (finish_success cl resp w)) = callers w"
  "log (snd (finish_success cl resp w)) = log w"
  "delay_env (snd (finish_success cl resp w)) = delay_env w"
  "calls (snd (finish_success cl resp w)) = calls w"
  "length (promises (snd (finish_success cl resp w))) = length (promises w)"
  "lsa_view (snd (finish_success cl resp w)) = lsa_view w"
  "requested_view (snd (finish_success cl resp w)) = requested_view w"
  "completed_view (snd (finish_success cl resp w)) = completed_view w"
  "\<not> in_catch (fst (finish_success cl resp w))"
  "\<not> before_onSuccess (fst (finish_success cl resp w))"
  by (simp_all add: finish_success_def resolve_and_return_def Let_def)

lemma mark_received_frame [simp]:
  "store (snd (mark_received c cl resp now w)) = store w"
  "length (debouncers (snd (mark_received c cl resp now w))) = length (debouncers w)"
  "callers (snd (mark_received c cl resp now w)) = callers w"
  "delay_env (snd (mark_received c cl resp now w)) = delay_env w"
  "calls (snd (mark_received c cl resp now w)) = calls w"
  "length (promises (snd (mark_received c cl resp now w))) = length (promises w)"
  "requested_view (snd (mark_received c cl resp now w)) = requested_view w"
  "completed_view (snd (mark_received c cl resp now w)) = completed_view w"
  by (simp_all add: mark_received_def Let_def split: option.split)

lemma mark_received_requested [simp]:
  assumes "isRequested (debouncers w ! c_this cl)"
  shows "log (snd (mark_received c cl resp now w)) = log w @ mark_events c cl resp"
    "\<not> in_catch (fst (mark_received c cl resp now w))"
    "lsa_view (snd (mark_received c cl resp now w)) = (lsa_view w)[c_this cl := Some now]"
  using assms
  by (auto simp: mark_received_def mark_events_def isRequested_def Let_def
      split: option.split)

lemma on_api_settled_frame [simp]:
  "store (snd (on_api_settled c cl outcome now w)) = store w"
  "length (debouncers (snd (on_api_settled c cl outcome now w))) = length (debouncers w)"
  "callers (snd (on_api_settled c cl outcome now w)) = callers w"
  "delay_env (snd (on_api_settled c cl outcome now w)) = delay_env w"
  "calls (snd (on_api_settled c cl outcome now w)) = calls w"
  "length (promises (snd (on_api_settled c cl outcome now w))) = length (promises w)"
  "requested_view (snd (on_api_settled c cl outcome now w)) = requested_view w"
  "completed_view (snd (on_api_settled c cl outcome now w)) = completed_view w"
  by (simp_all add: on_api_settled_def split: option.split sum.split)

lemma on_api_settled_log [simp]:
  "isRequested (debouncers w ! c_this cl) \<Longrightarrow>
   log (snd (on_api_settled c cl outcome now w)) = log w @ api_events c cl outcome"
  by (simp add: on_api_settled_def api_events_def context_switch_def
      split: option.split sum.split)

lemma on_hook_settled_frame [simp]:
  "store (snd (on_hook_settled c cl now w)) = store w"
  "length (debouncers (snd (on_hook_settled c cl now w))) = length (debouncers w)"
  "callers (snd (on_hook_settled c cl now w)) = callers w"
  "delay_env (snd (on_hook_settled c cl now w)) = delay_env w"
  "calls (snd (on_hook_settled c cl now w)) = calls w"
  "length (promises (snd (on_hook_settled c cl now w))) = length (promises w)"
  "requested_view (snd (on_hook_settled c cl now w)) = requested_view w"
  "completed_view (snd (on_hook_settled c cl now w)) = completed_view w"
  by (simp_all add: on_hook_settled_def split: pc.split sum.split)

lemma on_hook_settled_log [simp]:
  "isRequested (debouncers w ! c_this cl) \<Longrightarrow>
   log (snd (on_hook_settled c cl now w)) = log w @ hook_events c cl"
  by (simp add: on_hook_settled_def hook_events_def split: pc.split sum.split)

lemma issue_call_frame [simp]:
  "store (snd (issue_call c cl w)) = store w"
  "debouncers (snd (issue_call c cl w)) = debouncers w"
  "callers (snd (issue_call c cl w)) = callers w"
  "delay_env (snd (issue_call c cl w)) = delay_env w"
  "promises (snd (issue_call c cl w)) = promises w"
  "calls (snd (issue_call c cl w)) = calls w"
  "lsa_view (snd (issue_call c cl w)) = lsa_view w"
  "requested_view (snd (issue_call c cl w)) = requested_view w"
  "completed_view (snd (issue_call c cl w)) = completed_view w"
  "fst (issue_call c cl w) = AwaitApi"
  by (simp_all add: issue_call_def)

section \<open>A settled promise stays as it is\<close>

lemma resolve_settled:
  "settled_at p v w \<Longrightarrow> settled_at p v (resolve p' v' w)"
  by (auto simp: settled_at_def resolve_def nth_list_update)

lemma resolve_and_return_settled:
  "settled_at p v w \<Longrightarrow> settled_at p v (snd (resolve_and_return cl k v' w))"
  by (simp add: resolve_and_return_def Let_def resolve_settled)

lemma catch_store_and_return_settled:
  "settled_at p v w \<Longrightarrow> settled_at p v (snd (catch_store_and_return cl e w))"
  by (simp add: catch_store_and_return_def Let_def resolve_settled resolve_and_return_settled
      split: option.split)

lemma catch_onFail_settled:
  "settled_at p v w \<Longrightarrow> settled_at p v (snd (catch_onFail c cl e w))"
  by (simp add: catch_onFail_def catch_store_and_return_settled split: option.split sum.split)

lemma catch_block_settled:
  "settled_at p v w \<Longrightarrow> settled_at p v (snd (catch_block c cl e now w))"
  by (simp add: catch_block_def Let_def catch_onFail_settled split: option.split sum.split)

lemma finish_success_settled:
  "settled_at p v w \<Longrightarrow> settled_at p v (snd (finish_success cl resp w))"
  by (simp add: finish_success_def resolve_and_return_settled)

lemma mark_received_settled:
  "settled_at p v w \<Longrightarrow> settled_at p v (snd (mark_received c cl resp now w))"
  by (simp add: mark_received_def Let_def catch_block_settled finish_success_settled
      split: option.split)

lemma on_api_settled_settled:
  "settled_at p v w \<Longrightarrow> settled_at p v (snd (on_api_settled c cl outcome now w))"
  by (simp add: on_api_settled_def catch_block_settled mark_received_settled
      split: option.split sum.split)

lemma on_hook_settled_settled:
  "settled_at p v w \<Longrightarrow> settled_at p v (snd (on_hook_settled c cl now w))"
  by (simp add: on_hook_settled_def catch_block_settled mark_received_settled
      finish_success_settled split: pc.split sum.split)

lemma issue_call_settled:
  "settled_at p v w \<Longrightarrow> settled_at p v (snd (issue_call c cl w))"
  by (simp add: issue_call_def)

section \<open>Counting events\<close>

lemma count_append [simp]:
  "rollbacks c (xs @ ys) = rollbacks c xs + rollbacks c ys"
  "successes c (xs @ ys) = successes c xs + successes c ys"
  by (simp_all add: rollbacks_def successes_def)

lemma count_nil [simp]: "rollbacks c [] = 0" "successes c [] = 0"
  by (simp_all add: rollbacks_def successes_def)

lemma count_other_call:
  assumes "\<forall>e \<in> set es. log_cid e = c" "c' \<noteq> c"
  shows "rollbacks c' es = 0" "successes c' es = 0"
proof -
  have "\<not> is_rollback_of c' e" "\<not> is_onSuccess_of c' e" if "e \<in> set es" for e
    using assms that by (cases e; auto)+
  then show "rollbacks c' es = 0" "successes c' es = 0"
    by (simp_all add: rollbacks_def successes_def)
qed

lemma events_cid:
  "\<forall>ev \<in> set (onFail_events c cl e). log_cid ev = c"
  "\<forall>ev \<in> set (catch_events c cl e). log_cid ev = c"
  "\<forall>ev \<in> set (mark_events c cl resp). log_cid ev = c"
  "\<forall>ev \<in> set (api_events c cl outcome). log_cid ev = c"
  "\<forall>ev \<in> set (hook_events c cl). log_cid ev = c"
  by (auto simp: onFail_events_def catch_events_def mark_events_def api_events_def
      hook_events_def split: option.splits sum.splits pc.splits)

lemma events_count [simp]:
  "rollbacks c (onFail_events c cl e) = 0"
  "successes c (onFail_events c cl e) = 0"
  "rollbacks c (catch_events c cl e) = (if c_rollback cl \<noteq> None then 1 else 0)"
  "successes c (catch_events c cl e) = 0"
  "rollbacks c (mark_events c cl resp) = 0"
  "successes c (mark_events c cl resp) = (if onSuccess (c_spec cl) \<noteq> None then 1 else 0)"
  by (auto simp: onFail_events_def catch_events_def mark_events_def rollbacks_def successes_def
      split: option.splits sum.splits)

lemma in_catch_not_before: "in_catch p \<Longrightarrow> \<not> before_onSuccess p"
  by (cases p) simp_all

section \<open>Where each stretch stops\<close>

lemma mark_received_pc:
  assumes "isRequested (debouncers w ! c_this cl)"
  shows "\<not> before_onSuccess (fst (mark_received c cl resp now w))"
  using assms
  by (auto simp: mark_received_def isRequested_def Let_def finish_success_def
      resolve_and_return_def split: option.split)

lemma on_api_settled_pc:
  assumes "isRequested (debouncers w ! c_this cl)"
  shows "fst (on_api_settled c cl outcome now w) =
           (case outcome of
              Inl e \<Rightarrow> fst (catch_block c cl e now w)
            | Inr resp \<Rightarrow>
                (case context_switch cl resp of
                   None \<Rightarrow> fst (mark_received c cl resp now w)
                 | Some (h, settles) \<Rightarrow> AwaitNewChangeSet resp settles))"
  by (simp add: on_api_settled_def context_switch_def split: option.split sum.split)

lemma stretch_step_issue:
  assumes "c_pc cl = AwaitDelay"
  shows "stretch_step c cl (fst (issue_call c cl w)) (drop (length (log w)) (log (snd (issue_call c cl w))))"
  using assms
  by (simp add: stretch_step_def issue_call_def rollbacks_def successes_def
      split: option.split)

lemma stretch_step_api:
  assumes "c_pc cl = AwaitApi" "isRequested (debouncers w ! c_this cl)"
  shows "stretch_step c cl (fst (on_api_settled c cl outcome now w)) (api_events c cl outcome)"
proof (cases outcome)
  case (Inl e)
  with assms show ?thesis
    by (simp add: stretch_step_def on_api_settled_pc api_events_def events_cid
        in_catch_not_before)
next
  case (Inr resp)
  show ?thesis
  proof (cases "context_switch cl resp")
    case None
    with Inr assms show ?thesis
      by (simp add: stretch_step_def on_api_settled_pc api_events_def events_cid
          mark_received_pc)
  next
    case (Some hs)
    with Inr assms show ?thesis
      by (cases hs) (simp add: stretch_step_def on_api_settled_pc api_events_def
          rollbacks_def successes_def)
  qed
qed

lemma stretch_step_hook:
  assumes "isRequested (debouncers w ! c_this cl)"
  shows "stretch_step c cl (fst (on_hook_settled c cl now w)) (hook_events c cl)"
  using assms
  by (auto simp: stretch_step_def on_hook_settled_def hook_events_def events_cid
      mark_received_pc in_catch_not_before
      split: pc.split sum.split)

section \<open>What a step changes\<close>

lemma view_nth:
  assumes "a < length (debouncers w)"
  shows "requested_view w ! a = isRequested (debouncers w ! a)"
    "lsa_view w ! a = get_lastSuccessAt (debouncers w ! a)"
    "completed_view w ! a = get_completed (debouncers w ! a)"
  using assms by (simp_all add: requested_view_def lsa_view_def completed_view_def)

lemma view_length [simp]:
  "length (requested_view w) = length (debouncers w)"
  "length (lsa_view w) = length (debouncers w)"
  "length (completed_view w) = length (debouncers w)"
  by (simp_all add: requested_view_def lsa_view_def completed_view_def)

lemma resume_frame:
  "store (resume c k w) = store (snd (k (calls w ! c) w))"
  "debouncers (resume c k w) = debouncers (snd (k (calls w ! c) w))"
  "promises (resume c k w) = promises (snd (k (calls w ! c) w))"
  "callers (resume c k w) = callers (snd (k (calls w ! c) w))"
  "log (resume c k w) = log (snd (k (calls w ! c) w))"
  "delay_env (resume c k w) = delay_env (snd (k (calls w ! c) w))"
  "calls (resume c k w) = (calls w)[c := (calls w ! c)\<lparr>c_pc := fst (k (calls w ! c) w)\<rparr>]"
  "requested_view (resume c k w) = requested_view (snd (k (calls w ! c) w))"
  "lsa_view (resume c k w) = lsa_view (snd (k (calls w ! c) w))"
  "completed_view (resume c k w) = completed_view (snd (k (calls w ! c) w))"
  "settled_at p v (resume c k w) = settled_at p v (snd (k (calls w ! c) w))"
  by (simp_all add: resume_def requested_view_def lsa_view_def completed_view_def settled_at_def
      split: prod.split)

lemma ensure_debouncer_frame [simp]:
  "calls (ensure_debouncer k w) = calls w" "promises (ensure_debouncer k w) = promises w"
  "callers (ensure_debouncer k w) = callers w" "log (ensure_debouncer k w) = log w"
  "delay_env (ensure_debouncer k w) = delay_env w"
  "settled_at p v (ensure_debouncer k w) = settled_at p v w"
  by (simp_all add: ensure_debouncer_def settled_at_def split: option.split)

lemma ensure_debouncer_debouncers:
  "debouncers (ensure_debouncer k w) =
     debouncers w @ (if store w k = None then [new_ApiRequestDebouncer] else [])"
  by (simp add: ensure_debouncer_def split: option.split)

lemma ensure_debouncer_store:
  "store (ensure_debouncer k w) k' =
     (if k' = k \<and> store w k = None then Some (length (debouncers w)) else store w k')"
  by (simp add: ensure_debouncer_def split: option.split)

lemma ensure_debouncer_nth:
  "a < length (debouncers w) \<Longrightarrow> debouncers (ensure_debouncer k w) ! a = debouncers w ! a"
  by (simp add: ensure_debouncer_debouncers nth_append)

lemma ensure_debouncer_has_key: "\<exists>a. store (ensure_debouncer k w) k = Some a"
  by (cases "store w k") (simp_all add: ensure_debouncer_store)

text \<open>The call a dispatch starts, and the world it leaves.\<close>

lemma start_call_frame [simp]:
  "store (snd (start_call c a spec u now w)) = store w"
  "callers (snd (start_call c a spec u now w)) = callers w"
  "calls (snd (start_call c a spec u now w)) = calls w"
  "delay_env (snd (start_call c a spec u now w)) = delay_env w"
  "promises (snd (start_call c a spec u now w)) = promises w @ [None]"
  "length (debouncers (snd (start_call c a spec u now w))) = length (debouncers w)"
  "c_this (fst (start_call c a spec u now w)) = a"
  "c_completed (fst (start_call c a spec u now w)) = length (promises w)"
  "\<not> in_catch (c_pc (fst (start_call c a spec u now w)))"
  "before_onSuccess (c_pc (fst (start_call c a spec u now w)))"
  "returned (c_pc (fst (start_call c a spec u now w))) = None"
  by (simp_all add: start_call_def Let_def issue_call_def split: option.split sum.split prod.split)

lemma start_call_debouncers:
  "debouncers (snd (start_call c a spec u now w)) =
     (debouncers w)[a := \<lparr>request = Some
        \<lparr>requestedAt = now, receivedAt = None, completedAt = None,
         lastSuccessAt = get_lastSuccessAt (debouncers w ! a),
         payload = Some (fmupd ''requestUlid'' (JStr u)
                           (case params spec of None \<Rightarrow> fmempty | Some p \<Rightarrow> p)),
         error = None, completed = Some (length (promises w))\<rparr>\<rparr>]"
  by (simp add: start_call_def Let_def issue_call_def set_request_def add_log_def
      split: option.split sum.split prod.split)

lemma start_call_views [simp]:
  "requested_view (snd (start_call c a spec u now w)) = (requested_view w)[a := True]"
  "lsa_view (snd (start_call c a spec u now w)) = lsa_view w"
  "completed_view (snd (start_call c a spec u now w))
     = (completed_view w)[a := Some (length (promises w))]"
proof -
  have "(lsa_view w)[a := get_lastSuccessAt (debouncers w ! a)] = lsa_view w"
    by (rule upd_same) (simp add: lsa_view_def)
  then show "lsa_view (snd (start_call c a spec u now w)) = lsa_view w"
    by (simp add: start_call_debouncers lsa_view_def map_update get_lastSuccessAt_def)
  show "requested_view (snd (start_call c a spec u now w)) = (requested_view w)[a := True]"
    by (simp add: start_call_debouncers requested_view_def map_update isRequested_def)
  show "completed_view (snd (start_call c a spec u now w))
     = (completed_view w)[a := Some (length (promises w))]"
    by (simp add: start_call_debouncers completed_view_def map_update get_completed_def)
qed

lemma start_call_log:
  "\<exists>es. log (snd (start_call c a spec u now w)) = log w @ es \<and>
        (\<forall>e \<in> set es. log_cid e = c \<and> \<not> is_rollback_of c' e \<and> \<not> is_onSuccess_of c' e)"
  by (simp add: start_call_def Let_def issue_call_def add_log_def
      split: option.split sum.split prod.split)

lemma start_call_settled:
  "settled_at p v w \<Longrightarrow> settled_at p v (snd (start_call c a spec u now w))"
  by (simp add: settled_at_def nth_append)

text \<open>A dispatch either finds a pending twin or starts a call.\<close>

lemma dispatch_cases:
  fixes w actionName spec u now
  defines "w1 \<equiv> ensure_debouncer (getTrackingKey actionName spec) w"
  obtains (dedup) p where
      "step w (Dispatch actionName spec u now)
         = w1\<lparr>callers := callers w1 @ [AwaitsPromise p]\<rparr>"
    | (start) a where
      "store w1 (getTrackingKey actionName spec) = Some a"
      "step w (Dispatch actionName spec u now)
         = (snd (start_call (length (calls w)) a spec u now w1))
             \<lparr>calls := calls w @ [fst (start_call (length (calls w)) a spec u now w1)],
              callers := callers w @ [AwaitsCall (length (calls w))]\<rparr>"
proof -
  obtain a where a: "store w1 (getTrackingKey actionName spec) = Some a"
    unfolding w1_def using ensure_debouncer_has_key by blast
  show thesis
  proof (cases "dedup_hit (debouncers w1 ! a) spec")
    case True
    with a have "step w (Dispatch actionName spec u now)
         = w1\<lparr>callers := callers w1 @ [AwaitsPromise (get_completed (debouncers w1 ! a))]\<rparr>"
      by (simp add: wrappedActionFn_def triggerApiRequest_start_def w1_def Let_def)
    then show thesis by (rule dedup)
  next
    case False
    with a have "step w (Dispatch actionName spec u now)
         = (snd (start_call (length (calls w)) a spec u now w1))
             \<lparr>calls := calls w @ [fst (start_call (length (calls w)) a spec u now w1)],
              callers := callers w @ [AwaitsCall (length (calls w))]\<rparr>"
      by (simp add: wrappedActionFn_def triggerApiRequest_start_def w1_def Let_def
          split: prod.split)
    with a show thesis by (rule start)
  qed
qed

section \<open>The invariants hold\<close>

lemma stretch_ok_stretches:
  "stretch_ok (issue_call c)"
  "stretch_ok (\<lambda>cl. on_api_settled c cl outcome now)"
  "stretch_ok (\<lambda>cl. on_hook_settled c cl now)"
  by (simp_all add: stretch_ok_def issue_call_settled on_api_settled_settled
      on_hook_settled_settled)

lemma completion_cases:
  assumes "is_completion act"
  obtains (idle) "step w act = w"
    | (resumed) c k where "c < length (calls w)" "stretch_ok k" "step w act = resume c k w"
proof (cases act)
  case (DelayElapsed c)
  show ?thesis
  proof (cases "c < length (calls w) \<and> c_pc (calls w ! c) = AwaitDelay")
    case True
    with DelayElapsed show ?thesis
      by (intro resumed [of c "issue_call c"]) (simp_all add: stretch_ok_stretches)
  next
    case False
    with DelayElapsed show ?thesis by (intro idle) auto
  qed
next
  case (ApiSettles c outcome now)
  show ?thesis
  proof (cases "c < length (calls w) \<and> c_pc (calls w ! c) = AwaitApi")
    case True
    with ApiSettles show ?thesis
      by (intro resumed [of c "\<lambda>cl. on_api_settled c cl outcome now"])
        (simp_all add: stretch_ok_stretches)
  next
    case False
    with ApiSettles show ?thesis by (intro idle) auto
  qed
next
  case (HookSettles c now)
  show ?thesis
  proof (cases "c < length (calls w)")
    case True
    with HookSettles show ?thesis
      by (intro resumed [of c "\<lambda>cl. on_hook_settled c cl now"])
        (simp_all add: stretch_ok_stretches)
  next
    case False
    with HookSettles show ?thesis by (intro idle) auto
  qed
qed (use assms in simp_all)

lemma upd_field:
  assumes "\<And>x. f (g x) = f x"
  shows "f (xs[c := g (xs ! c)] ! c') = f (xs ! c')"
proof (cases "c < length xs")
  case True
  then show ?thesis by (simp add: nth_list_update assms)
next
  case False
  then show ?thesis by (simp add: not_less list_update_beyond)
qed

lemma resume_stretch:
  assumes "stretch_ok k"
  shows "store (resume c k w) = store w" "callers (resume c k w) = callers w"
    "delay_env (resume c k w) = delay_env w"
    "length (calls (resume c k w)) = length (calls w)"
    "length (debouncers (resume c k w)) = length (debouncers w)"
    "length (promises (resume c k w)) = length (promises w)"
    "requested_view (resume c k w) = requested_view w"
    "completed_view (resume c k w) = completed_view w"
    "c_this (calls (resume c k w) ! c') = c_this (calls w ! c')"
    "c_completed (calls (resume c k w) ! c') = c_completed (calls w ! c')"
    "c_rollback (calls (resume c k w) ! c') = c_rollback (calls w ! c')"
    "c_spec (calls (resume c k w) ! c') = c_spec (calls w ! c')"
    "c' \<noteq> c \<Longrightarrow> calls (resume c k w) ! c' = calls w ! c'"
proof -
  show "c_this (calls (resume c k w) ! c') = c_this (calls w ! c')"
    unfolding resume_frame by (rule upd_field) simp
  show "c_completed (calls (resume c k w) ! c') = c_completed (calls w ! c')"
    unfolding resume_frame by (rule upd_field) simp
  show "c_rollback (calls (resume c k w) ! c') = c_rollback (calls w ! c')"
    unfolding resume_frame by (rule upd_field) simp
  show "c_spec (calls (resume c k w) ! c') = c_spec (calls w ! c')"
    unfolding resume_frame by (rule upd_field) simp
qed (use assms in \<open>simp_all add: resume_frame stretch_ok_def\<close>)

lemma requested_nth:
  assumes "requested_view w' = requested_view w" "a < length (debouncers w)"
  shows "isRequested (debouncers w' ! a) = isRequested (debouncers w ! a)"
proof -
  have "length (debouncers w') = length (debouncers w)"
    using assms(1) by (metis view_length(1))
  with assms show ?thesis by (metis view_nth(1))
qed

lemma completed_nth:
  assumes "completed_view w' = completed_view w" "a < length (debouncers w)"
  shows "get_completed (debouncers w' ! a) = get_completed (debouncers w ! a)"
proof -
  have "length (debouncers w') = length (debouncers w)"
    using assms(1) by (metis view_length(3))
  with assms show ?thesis by (metis view_nth(3))
qed

lemma store_ok_step:
  assumes "store_ok w"
  shows "store_ok (step w act)"
proof -
  have ens: "store_ok (ensure_debouncer k w)" for k
    using assms
    by (auto simp: store_ok_def ensure_debouncer_store ensure_debouncer_debouncers
        less_Suc_eq split: if_splits)
  show ?thesis
  proof (cases "is_completion act")
    case True
    then show ?thesis
      using assms by (cases rule: completion_cases [of act w]) (simp_all add: store_ok_def resume_stretch)
  next
    case False
    show ?thesis
    proof (cases act)
      case (Dispatch actionName spec u now)
      show ?thesis
        using ens [of "getTrackingKey actionName spec"] unfolding Dispatch
        by (cases rule: dispatch_cases [of w actionName spec u now]) (simp_all add: store_ok_def)
    next
      case (ClearRequestStatus requestKey keyedByArgs)
      with assms show ?thesis by (simp add: store_ok_def clearRequestStatus_def)
    next
      case (GetRequestStatus requestKey keyedByArgs)
      with ens show ?thesis by (simp add: getRequestStatus_touch_def)
    qed (use False in simp_all)
  qed
qed

lemma calls_ok_step:
  assumes "calls_ok w" "store_ok w"
  shows "calls_ok (step w act)"
proof -
  have ens: "calls_ok (ensure_debouncer k w)" for k
    using assms(1)
    by (auto simp: calls_ok_def ensure_debouncer_debouncers nth_append)
  have ens_store: "store_ok (ensure_debouncer k w)" for k
    using assms(2)
    by (auto simp: store_ok_def ensure_debouncer_store ensure_debouncer_debouncers
        less_Suc_eq split: if_splits)
  show ?thesis
  proof (cases "is_completion act")
    case True
    then show ?thesis
    proof (cases rule: completion_cases [of act w])
      case idle
      with assms show ?thesis by simp
    next
      case (resumed c k)
      show ?thesis
        unfolding resumed(3) calls_ok_def
      proof (intro allI impI)
        fix c' assume "c' < length (calls (resume c k w))"
        then have c': "c' < length (calls w)" by (simp add: resume_stretch [OF resumed(2)])
        with assms(1) have ok: "c_this (calls w ! c') < length (debouncers w)"
          "isRequested (debouncers w ! c_this (calls w ! c'))"
          "c_completed (calls w ! c') < length (promises w)"
          by (simp_all add: calls_ok_def)
        from ok(1) have "isRequested (debouncers (resume c k w) ! c_this (calls w ! c'))
                = isRequested (debouncers w ! c_this (calls w ! c'))"
          by (intro requested_nth) (simp_all add: resume_stretch [OF resumed(2)])
        with ok show "c_this (calls (resume c k w) ! c') < length (debouncers (resume c k w)) \<and>
          isRequested (debouncers (resume c k w) ! c_this (calls (resume c k w) ! c')) \<and>
          c_completed (calls (resume c k w) ! c') < length (promises (resume c k w))"
          by (simp add: resume_stretch [OF resumed(2)])
      qed
    qed
  next
    case False
    show ?thesis
    proof (cases act)
      case (Dispatch actionName spec u now)
      define w1 where "w1 = ensure_debouncer (getTrackingKey actionName spec) w"
      have w1: "calls_ok w1" "store_ok w1" "calls w1 = calls w"
        by (simp_all add: w1_def ens ens_store)
      show ?thesis
        unfolding Dispatch
      proof (cases rule: dispatch_cases [of w actionName spec u now])
        case (dedup p)
        with w1 show "calls_ok (step w (Dispatch actionName spec u now))"
          by (simp add: calls_ok_def w1_def)
      next
        case (start a)
        let ?sc = "start_call (length (calls w)) a spec u now w1"
        from start(1) w1(2) have a: "a < length (debouncers w1)"
          by (simp add: store_ok_def w1_def)
        have req: "isRequested (debouncers (snd ?sc) ! a')
                    = (a' = a \<or> isRequested (debouncers w1 ! a'))"
          if "a' < length (debouncers w1)" for a'
        proof -
          have "isRequested (debouncers (snd ?sc) ! a') = requested_view (snd ?sc) ! a'"
            by (rule view_nth(1) [symmetric]) (simp add: that)
          also have "\<dots> = (a' = a \<or> requested_view w1 ! a')"
            using that a by (cases "a' = a") simp_all
          finally show ?thesis using that by (simp add: view_nth)
        qed
        show "calls_ok (step w (Dispatch actionName spec u now))"
          unfolding start(2) [folded w1_def] calls_ok_def
        proof (intro allI impI)
          fix c
          assume "c < length (calls ((snd ?sc)\<lparr>calls := calls w @ [fst ?sc],
                    callers := callers w @ [AwaitsCall (length (calls w))]\<rparr>))"
          then consider "c < length (calls w)" | "c = length (calls w)" by force
          then show "c_this (calls ((snd ?sc)\<lparr>calls := calls w @ [fst ?sc],
                    callers := callers w @ [AwaitsCall (length (calls w))]\<rparr>) ! c)
                 < length (debouncers ((snd ?sc)\<lparr>calls := calls w @ [fst ?sc],
                    callers := callers w @ [AwaitsCall (length (calls w))]\<rparr>)) \<and>
              isRequested (debouncers ((snd ?sc)\<lparr>calls := calls w @ [fst ?sc],
                    callers := callers w @ [AwaitsCall (length (calls w))]\<rparr>) !
                 c_this (calls ((snd ?sc)\<lparr>calls := calls w @ [fst ?sc],
                    callers := callers w @ [AwaitsCall (length (calls w))]\<rparr>) ! c)) \<and>
              c_completed (calls ((snd ?sc)\<lparr>calls := calls w @ [fst ?sc],
                    callers := callers w @ [AwaitsCall (length (calls w))]\<rparr>) ! c)
                 < length (promises ((snd ?sc)\<lparr>calls := calls w @ [fst ?sc],
                    callers := callers w @ [AwaitsCall (length (calls w))]\<rparr>))"
          proof cases
            case 1
            with w1 have "c_this (calls w ! c) < length (debouncers w1)"
              "isRequested (debouncers w1 ! c_this (calls w ! c))"
              "c_completed (calls w ! c) < length (promises w1)"
              by (simp_all add: calls_ok_def)
            with 1 show ?thesis by (simp add: nth_append req)
          next
            case 2
            with a show ?thesis by (simp add: nth_append req)
          qed
        qed
      qed
    next
      case (ClearRequestStatus requestKey keyedByArgs)
      with assms show ?thesis by (simp add: calls_ok_def clearRequestStatus_def)
    next
      case (GetRequestStatus requestKey keyedByArgs)
      with ens show ?thesis by (simp add: getRequestStatus_touch_def)
    qed (use False in simp_all)
  qed
qed

lemma reachable_store_calls: "reachable w \<Longrightarrow> store_ok w \<and> calls_ok w"
proof (induction rule: reachable.induct)
  case (reachable_init dly)
  show ?case by (simp add: store_ok_def calls_ok_def init_world_def)
next
  case (reachable_step w act)
  then show ?case by (simp add: store_ok_step calls_ok_step)
qed

lemma issue_call_log:
  "\<exists>ev. log (snd (issue_call c cl w)) = log w @ [ev] \<and> log_cid ev = c \<and>
        \<not> is_rollback_of c' ev \<and> \<not> is_onSuccess_of c' ev"
  by (simp add: issue_call_def split: option.split)

text \<open>A step that continues a call, with the events it adds.\<close>

lemma completion_step:
  assumes "is_completion act" "calls_ok w"
  obtains (idle) "step w act = w"
    | (resumed) c k es where
        "c < length (calls w)" "stretch_ok k" "step w act = resume c k w"
        "log (snd (k (calls w ! c) w)) = log w @ es"
        "stretch_step c (calls w ! c) (fst (k (calls w ! c) w)) es"
proof (cases act)
  case (DelayElapsed c)
  show ?thesis
  proof (cases "c < length (calls w) \<and> c_pc (calls w ! c) = AwaitDelay")
    case True
    obtain ev where ev: "log (snd (issue_call c (calls w ! c) w)) = log w @ [ev]"
      "log_cid ev = c" "\<not> is_rollback_of c ev" "\<not> is_onSuccess_of c ev"
      using issue_call_log by blast
    have "stretch_step c (calls w ! c) (fst (issue_call c (calls w ! c) w)) [ev]"
      using True ev by (simp add: stretch_step_def rollbacks_def successes_def)
    with True DelayElapsed ev(1) show ?thesis
      by (intro resumed [of c "issue_call c" "[ev]"]) (simp_all add: stretch_ok_stretches)
  next
    case False
    with DelayElapsed show ?thesis by (intro idle) auto
  qed
next
  case (ApiSettles c outcome now)
  show ?thesis
  proof (cases "c < length (calls w) \<and> c_pc (calls w ! c) = AwaitApi")
    case True
    with assms(2) have req: "isRequested (debouncers w ! c_this (calls w ! c))"
      by (simp add: calls_ok_def)
    with True ApiSettles show ?thesis
      by (intro resumed [of c "\<lambda>cl. on_api_settled c cl outcome now" "api_events c (calls w ! c) outcome"])
        (simp_all add: stretch_ok_stretches stretch_step_api)
  next
    case False
    with ApiSettles show ?thesis by (intro idle) auto
  qed
next
  case (HookSettles c now)
  show ?thesis
  proof (cases "c < length (calls w)")
    case True
    with assms(2) have req: "isRequested (debouncers w ! c_this (calls w ! c))"
      by (simp add: calls_ok_def)
    with True HookSettles show ?thesis
      by (intro resumed [of c "\<lambda>cl. on_hook_settled c cl now" "hook_events c (calls w ! c)"])
        (simp_all add: stretch_ok_stretches stretch_step_hook)
  next
    case False
    with HookSettles show ?thesis by (intro idle) auto
  qed
qed (use assms in simp_all)

lemma fresh_call_counts:
  assumes "log_ok w" "length (calls w) \<le> c"
  shows "rollbacks c (log w) = 0" "successes c (log w) = 0"
proof -
  have "\<not> is_rollback_of c e" "\<not> is_onSuccess_of c e" if "e \<in> set (log w)" for e
  proof -
    from assms that have "log_cid e \<noteq> c" by (auto simp: log_ok_def)
    then show "\<not> is_rollback_of c e" "\<not> is_onSuccess_of c e" by (cases e; simp)+
  qed
  then show "rollbacks c (log w) = 0" "successes c (log w) = 0"
    by (simp_all add: rollbacks_def successes_def)
qed

lemma quiet_events_counts:
  assumes "\<forall>e \<in> set es. \<not> is_rollback_of c e \<and> \<not> is_onSuccess_of c e"
  shows "rollbacks c es = 0" "successes c es = 0"
  using assms by (simp_all add: rollbacks_def successes_def)

lemma log_ok_step:
  assumes "log_ok w" "calls_ok w"
  shows "log_ok (step w act)"
proof (cases "is_completion act")
  case True
  from True assms(2) show ?thesis
  proof (cases rule: completion_step [of act w])
    case idle
    with assms show ?thesis by simp
  next
    case (resumed c k es)
    with assms(1) show ?thesis
      by (auto simp: log_ok_def resume_frame stretch_step_def)
  qed
next
  case False
  show ?thesis
  proof (cases act)
    case (Dispatch actionName spec u now)
    show ?thesis
      unfolding Dispatch
    proof (cases rule: dispatch_cases [of w actionName spec u now])
      case (dedup p)
      with assms(1) show "log_ok (step w (Dispatch actionName spec u now))"
        by (simp add: log_ok_def)
    next
      case (start a)
      obtain es where es: "log (snd (start_call (length (calls w)) a spec u now
                 (ensure_debouncer (getTrackingKey actionName spec) w)))
             = log (ensure_debouncer (getTrackingKey actionName spec) w) @ es"
          "\<forall>e \<in> set es. log_cid e = length (calls w)"
        using start_call_log [of "length (calls w)" a spec u now
            "ensure_debouncer (getTrackingKey actionName spec) w" 0] by blast
      with assms(1) show "log_ok (step w (Dispatch actionName spec u now))"
        unfolding start(2) by (auto simp: log_ok_def less_Suc_eq)
    qed
  next
    case (ClearRequestStatus requestKey keyedByArgs)
    with assms show ?thesis by (simp add: log_ok_def clearRequestStatus_def)
  next
    case (GetRequestStatus requestKey keyedByArgs)
    with assms show ?thesis by (simp add: log_ok_def getRequestStatus_touch_def)
  qed (use False in simp_all)
qed

lemma rollbacks_ok_step:
  assumes "rollbacks_ok w" "log_ok w" "calls_ok w"
  shows "rollbacks_ok (step w act)"
proof (cases "is_completion act")
  case True
  from True assms(3) show ?thesis
  proof (cases rule: completion_step [of act w])
    case idle
    with assms show ?thesis by simp
  next
    case (resumed c k es)
    show ?thesis
      unfolding resumed(3) rollbacks_ok_def
    proof (intro allI impI)
      fix c' assume "c' < length (calls (resume c k w))"
      then have c': "c' < length (calls w)" by (simp add: resume_stretch [OF resumed(2)])
      with assms(1) have old: "rollbacks c' (log w) =
          (if in_catch (c_pc (calls w ! c')) \<and> c_rollback (calls w ! c') \<noteq> None then 1 else 0)"
        by (simp add: rollbacks_ok_def)
      show "rollbacks c' (log (resume c k w)) =
          (if in_catch (c_pc (calls (resume c k w) ! c')) \<and>
              c_rollback (calls (resume c k w) ! c') \<noteq> None then 1 else 0)"
      proof (cases "c' = c")
        case True
        with resumed c' old show ?thesis
          by (auto simp: resume_frame stretch_step_def)
      next
        case False
        with resumed have "rollbacks c' es = 0"
          by (intro count_other_call(1) [of es c]) (simp_all add: stretch_step_def)
        with False resumed c' old show ?thesis
          by (simp add: resume_frame)
      qed
    qed
  qed
next
  case False
  show ?thesis
  proof (cases act)
    case (Dispatch actionName spec u now)
    show ?thesis
      unfolding Dispatch
    proof (cases rule: dispatch_cases [of w actionName spec u now])
      case (dedup p)
      with assms(1) show "rollbacks_ok (step w (Dispatch actionName spec u now))"
        by (simp add: rollbacks_ok_def)
    next
      case (start a)
      let ?w1 = "ensure_debouncer (getTrackingKey actionName spec) w"
      let ?sc = "start_call (length (calls w)) a spec u now ?w1"
      show "rollbacks_ok (step w (Dispatch actionName spec u now))"
        unfolding start(2) rollbacks_ok_def
      proof (intro allI impI)
        fix c
        assume "c < length (calls ((snd ?sc)\<lparr>calls := calls w @ [fst ?sc],
                  callers := callers w @ [AwaitsCall (length (calls w))]\<rparr>))"
        then have c: "c < length (calls w) \<or> c = length (calls w)" by auto
        obtain es where es: "log (snd ?sc) = log ?w1 @ es"
          "\<forall>e \<in> set es. \<not> is_rollback_of c e \<and> \<not> is_onSuccess_of c e"
          using start_call_log [of "length (calls w)" a spec u now ?w1 c] by blast
        then have quiet: "rollbacks c es = 0" by (simp add: quiet_events_counts)
        from c show "rollbacks c (log ((snd ?sc)\<lparr>calls := calls w @ [fst ?sc],
                  callers := callers w @ [AwaitsCall (length (calls w))]\<rparr>)) =
            (if in_catch (c_pc (calls ((snd ?sc)\<lparr>calls := calls w @ [fst ?sc],
                  callers := callers w @ [AwaitsCall (length (calls w))]\<rparr>) ! c)) \<and>
                c_rollback (calls ((snd ?sc)\<lparr>calls := calls w @ [fst ?sc],
                  callers := callers w @ [AwaitsCall (length (calls w))]\<rparr>) ! c) \<noteq> None
             then 1 else 0)"
        proof
          assume "c < length (calls w)"
          with assms(1) es(1) quiet show ?thesis
            by (simp add: rollbacks_ok_def nth_append)
        next
          assume "c = length (calls w)"
          with assms(2) es(1) quiet show ?thesis
            by (simp add: fresh_call_counts nth_append)
        qed
      qed
    qed
  next
    case (ClearRequestStatus requestKey keyedByArgs)
    with assms show ?thesis by (simp add: rollbacks_ok_def clearRequestStatus_def)
  next
    case (GetRequestStatus requestKey keyedByArgs)
    with assms show ?thesis by (simp add: rollbacks_ok_def getRequestStatus_touch_def)
  qed (use False in simp_all)
qed


section \<open>A returned call has returned what its promise holds\<close>

lemma resolve_and_return_returns:
  assumes "c_completed cl < length (promises w)" "\<And>x. returned (k x) = Some x"
    "returned (fst (resolve_and_return cl k v w)) = Some v'"
  shows "settled_at (c_completed cl) v' (snd (resolve_and_return cl k v w))"
  using assms
  by (auto simp: resolve_and_return_def Let_def resolve_def settled_at_def
      split: option.splits)

lemma catch_store_and_return_returns:
  assumes "c_completed cl < length (promises w)"
    "returned (fst (catch_store_and_return cl e w)) = Some v'"
  shows "settled_at (c_completed cl) v' (snd (catch_store_and_return cl e w))"
proof (cases "request (debouncers w ! c_this cl)")
  case None
  with assms show ?thesis by (simp add: catch_store_and_return_def)
next
  case (Some r)
  note r = Some
  show ?thesis
  proof (cases "response e")
    case None
    with r assms show ?thesis by (simp add: catch_store_and_return_def Let_def)
  next
    case (Some resp)
    with r assms show ?thesis
      by (simp add: catch_store_and_return_def Let_def resolve_and_return_returns)
  qed
qed

lemma catch_onFail_returns:
  assumes "c_completed cl < length (promises w)"
    "returned (fst (catch_onFail c cl e w)) = Some v'"
  shows "settled_at (c_completed cl) v' (snd (catch_onFail c cl e w))"
  using assms
  by (auto simp: catch_onFail_def catch_store_and_return_returns split: option.splits sum.splits)

lemma catch_block_returns:
  assumes "c_completed cl < length (promises w)"
    "returned (fst (catch_block c cl e now w)) = Some v'"
  shows "settled_at (c_completed cl) v' (snd (catch_block c cl e now w))"
  using assms
  by (auto simp: catch_block_def Let_def catch_onFail_returns split: option.splits sum.splits)

lemma finish_success_returns:
  assumes "c_completed cl < length (promises w)"
    "returned (fst (finish_success cl resp w)) = Some v'"
  shows "settled_at (c_completed cl) v' (snd (finish_success cl resp w))"
  using assms by (simp add: finish_success_def resolve_and_return_returns)

lemma mark_received_returns:
  assumes "c_completed cl < length (promises w)"
    "returned (fst (mark_received c cl resp now w)) = Some v'"
  shows "settled_at (c_completed cl) v' (snd (mark_received c cl resp now w))"
  using assms
  by (auto simp: mark_received_def Let_def catch_block_returns finish_success_returns
      split: option.splits)

lemma on_api_settled_returns:
  assumes "c_completed cl < length (promises w)"
    "returned (fst (on_api_settled c cl outcome now w)) = Some v'"
  shows "settled_at (c_completed cl) v' (snd (on_api_settled c cl outcome now w))"
  using assms
  by (auto simp: on_api_settled_def catch_block_returns mark_received_returns
      split: option.splits sum.splits if_splits)

lemma on_hook_settled_returns:
  assumes "c_completed cl < length (promises w)"
    "returned (fst (on_hook_settled c cl now w)) = Some v'"
  shows "returned (c_pc cl) = Some v' \<and> snd (on_hook_settled c cl now w) = w \<or>
         settled_at (c_completed cl) v' (snd (on_hook_settled c cl now w))"
  using assms
  by (auto simp: on_hook_settled_def catch_block_returns mark_received_returns
      finish_success_returns split: pc.splits sum.splits)

lemma returned_ok_step:
  assumes "returned_ok w" "calls_ok w"
  shows "returned_ok (step w act)"
proof (cases "is_completion act")
  case True
  have main: "returned_ok (resume c k w)"
    if c: "c < length (calls w)" and k: "stretch_ok k"
      and ret: "\<And>v. returned (fst (k (calls w ! c) w)) = Some v \<Longrightarrow>
          returned (c_pc (calls w ! c)) = Some v \<and> snd (k (calls w ! c) w) = w \<or>
          settled_at (c_completed (calls w ! c)) v (snd (k (calls w ! c) w))"
    for c k
    unfolding returned_ok_def
  proof (intro allI impI)
    fix c' v
    assume "c' < length (calls (resume c k w))"
      and r: "returned (c_pc (calls (resume c k w) ! c')) = Some v"
    then have c': "c' < length (calls w)" by (simp add: resume_stretch [OF k])
    have stable: "settled_at p x w \<Longrightarrow> settled_at p x (resume c k w)" for p x
      using k by (simp add: resume_frame stretch_ok_def)
    have cc: "c_completed (calls (resume c k w) ! c') = c_completed (calls w ! c')"
      by (rule resume_stretch [OF k])
    have "settled_at (c_completed (calls w ! c')) v (resume c k w)"
    proof (cases "c' = c")
      case True
      with r c have "returned (fst (k (calls w ! c) w)) = Some v"
        by (simp add: resume_frame)
      from ret [OF this] show ?thesis
      proof
        assume "returned (c_pc (calls w ! c)) = Some v \<and> snd (k (calls w ! c) w) = w"
        with assms(1) c have "settled_at (c_completed (calls w ! c)) v w"
          by (simp add: returned_ok_def)
        with True show ?thesis by (simp add: stable)
      next
        assume "settled_at (c_completed (calls w ! c)) v (snd (k (calls w ! c) w))"
        with True show ?thesis by (simp add: resume_frame(11))
      qed
    next
      case False
      with r have "returned (c_pc (calls w ! c')) = Some v"
        by (simp add: resume_stretch [OF k])
      with assms(1) c' have "settled_at (c_completed (calls w ! c')) v w"
        by (simp add: returned_ok_def)
      then show ?thesis by (simp add: stable)
    qed
    then show "settled_at (c_completed (calls (resume c k w) ! c')) v (resume c k w)"
      by (simp only: cc)
  qed
  show ?thesis
  proof (cases act)
    case (DelayElapsed c)
    show ?thesis
    proof (cases "c < length (calls w) \<and> c_pc (calls w ! c) = AwaitDelay")
      case True
      then have "returned_ok (resume c (issue_call c) w)"
        by (intro main) (simp_all add: stretch_ok_stretches)
      with True DelayElapsed show ?thesis by simp
    next
      case False
      with DelayElapsed assms show ?thesis by auto
    qed
  next
    case (ApiSettles c outcome now)
    show ?thesis
    proof (cases "c < length (calls w) \<and> c_pc (calls w ! c) = AwaitApi")
      case True
      with assms(2) have "c_completed (calls w ! c) < length (promises w)"
        by (simp add: calls_ok_def)
      with True have "returned_ok (resume c (\<lambda>cl. on_api_settled c cl outcome now) w)"
        by (intro main) (simp_all add: stretch_ok_stretches on_api_settled_returns)
      with True ApiSettles show ?thesis by simp
    next
      case False
      with ApiSettles assms show ?thesis by auto
    qed
  next
    case (HookSettles c now)
    show ?thesis
    proof (cases "c < length (calls w)")
      case True
      with assms(2) have "c_completed (calls w ! c) < length (promises w)"
        by (simp add: calls_ok_def)
      with True have "returned_ok (resume c (\<lambda>cl. on_hook_settled c cl now) w)"
        by (intro main) (simp_all add: stretch_ok_stretches on_hook_settled_returns)
      with True HookSettles show ?thesis by simp
    next
      case False
      with HookSettles assms show ?thesis by auto
    qed
  qed (use True in simp_all)
next
  case False
  show ?thesis
  proof (cases act)
    case (Dispatch actionName spec u now)
    let ?w1 = "ensure_debouncer (getTrackingKey actionName spec) w"
    show ?thesis
      unfolding Dispatch
    proof (cases rule: dispatch_cases [of w actionName spec u now])
      case (dedup p)
      with assms(1) show "returned_ok (step w (Dispatch actionName spec u now))"
        by (simp add: returned_ok_def settled_at_def)
    next
      case (start a)
      let ?sc = "start_call (length (calls w)) a spec u now ?w1"
      show "returned_ok (step w (Dispatch actionName spec u now))"
        unfolding start(2) returned_ok_def
      proof (intro allI impI)
        fix c v
        assume c: "c < length (calls ((snd ?sc)\<lparr>calls := calls w @ [fst ?sc],
                  callers := callers w @ [AwaitsCall (length (calls w))]\<rparr>))"
          and r: "returned (c_pc (calls ((snd ?sc)\<lparr>calls := calls w @ [fst ?sc],
                  callers := callers w @ [AwaitsCall (length (calls w))]\<rparr>) ! c)) = Some v"
        have "c \<noteq> length (calls w)" using r by (auto simp: nth_append)
        with c have c': "c < length (calls w)" by simp
        with r assms(1) have "settled_at (c_completed (calls w ! c)) v w"
          by (simp add: returned_ok_def nth_append)
        with c' show "settled_at (c_completed (calls ((snd ?sc)\<lparr>calls := calls w @ [fst ?sc],
                  callers := callers w @ [AwaitsCall (length (calls w))]\<rparr>) ! c)) v
             ((snd ?sc)\<lparr>calls := calls w @ [fst ?sc],
                  callers := callers w @ [AwaitsCall (length (calls w))]\<rparr>)"
          by (simp add: settled_at_def nth_append)
      qed
    qed
  next
    case (ClearRequestStatus requestKey keyedByArgs)
    with assms show ?thesis by (simp add: returned_ok_def clearRequestStatus_def settled_at_def)
  next
    case (GetRequestStatus requestKey keyedByArgs)
    with assms show ?thesis by (simp add: returned_ok_def getRequestStatus_touch_def)
  qed (use False in simp_all)
qed


lemma successes_ok_step:
  assumes "successes_ok w" "log_ok w" "calls_ok w"
  shows "successes_ok (step w act)"
proof (cases "is_completion act")
  case True
  from True assms(3) show ?thesis
  proof (cases rule: completion_step [of act w])
    case idle
    with assms show ?thesis by simp
  next
    case (resumed c k es)
    show ?thesis
      unfolding resumed(3) successes_ok_def
    proof (intro allI impI)
      fix c' assume "c' < length (calls (resume c k w))"
        and b: "before_onSuccess (c_pc (calls (resume c k w) ! c'))"
      then have c': "c' < length (calls w)" by (simp add: resume_stretch [OF resumed(2)])
      show "successes c' (log (resume c k w)) = 0"
      proof (cases "c' = c")
        case True
        with b resumed have "before_onSuccess (fst (k (calls w ! c) w))"
          by (simp add: resume_frame)
        with resumed have "successes c es = 0" "before_onSuccess (c_pc (calls w ! c))"
          by (simp_all add: stretch_step_def)
        moreover from this assms(1) resumed(1) have "successes c (log w) = 0"
          by (simp add: successes_ok_def)
        ultimately show ?thesis using True resumed by (simp add: resume_frame)
      next
        case False
        with resumed have "successes c' es = 0"
          by (intro count_other_call(2) [of es c]) (simp_all add: stretch_step_def)
        moreover from False b have "before_onSuccess (c_pc (calls w ! c'))"
          by (simp add: resume_stretch [OF resumed(2)])
        with assms(1) c' have "successes c' (log w) = 0" by (simp add: successes_ok_def)
        ultimately show ?thesis using resumed by (simp add: resume_frame)
      qed
    qed
  qed
next
  case False
  show ?thesis
  proof (cases act)
    case (Dispatch actionName spec u now)
    show ?thesis
      unfolding Dispatch
    proof (cases rule: dispatch_cases [of w actionName spec u now])
      case (dedup p)
      with assms(1) show "successes_ok (step w (Dispatch actionName spec u now))"
        by (simp add: successes_ok_def)
    next
      case (start a)
      let ?w1 = "ensure_debouncer (getTrackingKey actionName spec) w"
      let ?sc = "start_call (length (calls w)) a spec u now ?w1"
      show "successes_ok (step w (Dispatch actionName spec u now))"
        unfolding start(2) successes_ok_def
      proof (intro allI impI)
        fix c
        assume "c < length (calls ((snd ?sc)\<lparr>calls := calls w @ [fst ?sc],
                  callers := callers w @ [AwaitsCall (length (calls w))]\<rparr>))"
          and b: "before_onSuccess (c_pc (calls ((snd ?sc)\<lparr>calls := calls w @ [fst ?sc],
                  callers := callers w @ [AwaitsCall (length (calls w))]\<rparr>) ! c))"
        then have c: "c < length (calls w) \<or> c = length (calls w)" by auto
        obtain es where es: "log (snd ?sc) = log ?w1 @ es"
          "\<forall>e \<in> set es. \<not> is_rollback_of c e \<and> \<not> is_onSuccess_of c e"
          using start_call_log [of "length (calls w)" a spec u now ?w1 c] by blast
        then have quiet: "successes c es = 0" by (simp add: quiet_events_counts)
        from c show "successes c (log ((snd ?sc)\<lparr>calls := calls w @ [fst ?sc],
                  callers := callers w @ [AwaitsCall (length (calls w))]\<rparr>)) = 0"
        proof
          assume "c < length (calls w)"
          with assms(1) es(1) quiet b show ?thesis
            by (simp add: successes_ok_def nth_append)
        next
          assume "c = length (calls w)"
          with assms(2) es(1) quiet show ?thesis
            by (simp add: fresh_call_counts)
        qed
      qed
    qed
  next
    case (ClearRequestStatus requestKey keyedByArgs)
    with assms show ?thesis by (simp add: successes_ok_def clearRequestStatus_def)
  next
    case (GetRequestStatus requestKey keyedByArgs)
    with assms show ?thesis by (simp add: successes_ok_def getRequestStatus_touch_def)
  qed (use False in simp_all)
qed

lemma completed_ok_step:
  assumes "completed_ok w" "store_ok w"
  shows "completed_ok (step w act)"
proof -
  have ens: "completed_ok (ensure_debouncer k w)" for k
    using assms(1)
    by (auto simp: completed_ok_def ensure_debouncer_debouncers nth_append less_Suc_eq
        isRequested_def new_ApiRequestDebouncer_def)
  have ens_store: "store_ok (ensure_debouncer k w)" for k
    using assms(2)
    by (auto simp: store_ok_def ensure_debouncer_store ensure_debouncer_debouncers
        less_Suc_eq split: if_splits)
  show ?thesis
  proof (cases "is_completion act")
    case True
    then show ?thesis
    proof (cases rule: completion_cases [of act w])
      case idle
      with assms show ?thesis by simp
    next
      case (resumed c k)
      show ?thesis
        unfolding resumed(3) completed_ok_def
      proof (intro allI impI)
        fix a
        assume "a < length (debouncers (resume c k w))"
          and "isRequested (debouncers (resume c k w) ! a)"
        then have a: "a < length (debouncers w)" and "isRequested (debouncers w ! a)"
          using requested_nth [of "resume c k w" w a]
          by (simp_all add: resume_stretch [OF resumed(2)])
        with assms(1) obtain c0 where "c0 < length (calls w)" "c_this (calls w ! c0) = a"
          "get_completed (debouncers w ! a) = Some (c_completed (calls w ! c0))"
          "AwaitsCall c0 \<in> set (callers w)"
          by (auto simp: completed_ok_def)
        moreover have "get_completed (debouncers (resume c k w) ! a)
                        = get_completed (debouncers w ! a)"
          using a by (intro completed_nth) (simp_all add: resume_stretch [OF resumed(2)])
        ultimately show "\<exists>c0 < length (calls (resume c k w)).
            c_this (calls (resume c k w) ! c0) = a \<and>
            get_completed (debouncers (resume c k w) ! a)
              = Some (c_completed (calls (resume c k w) ! c0)) \<and>
            AwaitsCall c0 \<in> set (callers (resume c k w))"
          by (intro exI [of _ c0]) (simp add: resume_stretch [OF resumed(2)])
      qed
    qed
  next
    case False
    show ?thesis
    proof (cases act)
      case (Dispatch actionName spec u now)
      define w1 where "w1 = ensure_debouncer (getTrackingKey actionName spec) w"
      have w1: "completed_ok w1" "store_ok w1" "calls w1 = calls w" "callers w1 = callers w"
        by (simp_all add: w1_def ens ens_store)
      show ?thesis
        unfolding Dispatch
      proof (cases rule: dispatch_cases [of w actionName spec u now])
        case (dedup p)
        with w1(1) show "completed_ok (step w (Dispatch actionName spec u now))"
          by (fastforce simp: completed_ok_def w1_def)
      next
        case (start a)
        let ?sc = "start_call (length (calls w)) a spec u now w1"
        let ?w' = "(snd ?sc)\<lparr>calls := calls w @ [fst ?sc],
                    callers := callers w @ [AwaitsCall (length (calls w))]\<rparr>"
        from start(1) w1(2) have a: "a < length (debouncers w1)"
          by (simp add: store_ok_def w1_def)
        show "completed_ok (step w (Dispatch actionName spec u now))"
          unfolding start(2) [folded w1_def] completed_ok_def
        proof (intro allI impI)
          fix a'
          assume "a' < length (debouncers ?w')" and rq: "isRequested (debouncers ?w' ! a')"
          then have a': "a' < length (debouncers w1)" by simp
          have gc: "get_completed (debouncers (snd ?sc) ! a')
                = (completed_view w1)[a := Some (length (promises w1))] ! a'"
            using view_nth(3) [of a' "snd ?sc"] a' by simp
          have rv: "isRequested (debouncers (snd ?sc) ! a') = (requested_view w1)[a := True] ! a'"
            using view_nth(1) [of a' "snd ?sc"] a' by simp
          show "\<exists>c < length (calls ?w'). c_this (calls ?w' ! c) = a' \<and>
                  get_completed (debouncers ?w' ! a') = Some (c_completed (calls ?w' ! c)) \<and>
                  AwaitsCall c \<in> set (callers ?w')"
          proof (cases "a' = a")
            case True
            with gc a have "get_completed (debouncers (snd ?sc) ! a') = Some (length (promises w1))"
              by simp
            with True show ?thesis
              by (intro exI [of _ "length (calls w)"]) simp
          next
            case False
            with rq rv a' have "isRequested (debouncers w1 ! a')"
              by (simp add: view_nth)
            with w1 a' obtain c0 where "c0 < length (calls w)" "c_this (calls w ! c0) = a'"
              "get_completed (debouncers w1 ! a') = Some (c_completed (calls w ! c0))"
              "AwaitsCall c0 \<in> set (callers w)"
              by (auto simp: completed_ok_def)
            moreover from False gc a' have "get_completed (debouncers (snd ?sc) ! a')
                = get_completed (debouncers w1 ! a')"
              by (simp add: view_nth)
            ultimately show ?thesis
              by (intro exI [of _ c0]) (simp add: nth_append)
          qed
        qed
      qed
    next
      case (ClearRequestStatus requestKey keyedByArgs)
      with assms show ?thesis by (simp add: completed_ok_def clearRequestStatus_def)
    next
      case (GetRequestStatus requestKey keyedByArgs)
      with ens show ?thesis by (simp add: getRequestStatus_touch_def)
    qed (use False in simp_all)
  qed
qed

text \<open>All of the invariants, for every reachable world.\<close>

lemma reachable_invariants:
  assumes "reachable w"
  shows "store_ok w" "calls_ok w" "log_ok w" "rollbacks_ok w" "successes_ok w"
    "returned_ok w" "completed_ok w"
proof -
  have "store_ok w \<and> calls_ok w \<and> log_ok w \<and> rollbacks_ok w \<and> successes_ok w \<and>
        returned_ok w \<and> completed_ok w"
    using assms
  proof (induction rule: reachable.induct)
    case (reachable_init dly)
    show ?case
      by (simp add: store_ok_def calls_ok_def log_ok_def rollbacks_ok_def successes_ok_def
          returned_ok_def completed_ok_def init_world_def)
  next
    case (reachable_step w act)
    then show ?case
      by (simp add: store_ok_step calls_ok_step log_ok_step rollbacks_ok_step
          successes_ok_step returned_ok_step completed_ok_step)
  qed
  then show "store_ok w" "calls_ok w" "log_ok w" "rollbacks_ok w" "successes_ok w"
    "returned_ok w" "completed_ok w"
    by simp_all
qed

lemma reachable_run: "reachable w \<Longrightarrow> reachable (run w acts)"
  unfolding run_def
  by (induction acts arbitrary: w) (simp_all add: reachable_step)

section \<open>Calls keep their closure\<close>

lemma step_keeps_call:
  assumes "c < length (calls w)"
  shows "c < length (calls (step w act))"
    "c_this (calls (step w act) ! c) = c_this (calls w ! c)"
    "c_completed (calls (step w act) ! c) = c_completed (calls w ! c)"
    "c_rollback (calls (step w act) ! c) = c_rollback (calls w ! c)"
    "c_spec (calls (step w act) ! c) = c_spec (calls w ! c)"
proof -
  have "c < length (calls (step w act)) \<and>
    c_this (calls (step w act) ! c) = c_this (calls w ! c) \<and>
    c_completed (calls (step w act) ! c) = c_completed (calls w ! c) \<and>
    c_rollback (calls (step w act) ! c) = c_rollback (calls w ! c) \<and>
    c_spec (calls (step w act) ! c) = c_spec (calls w ! c)"
  proof (cases "is_completion act")
    case True
    then show ?thesis
      using assms
      by (cases rule: completion_cases [of act w]) (simp_all add: resume_stretch)
  next
    case False
    show ?thesis
    proof (cases act)
      case (Dispatch actionName spec u now)
      show ?thesis
        unfolding Dispatch using assms
        by (cases rule: dispatch_cases [of w actionName spec u now]) (simp_all add: nth_append)
    next
      case (ClearRequestStatus requestKey keyedByArgs)
      with assms show ?thesis by (simp add: clearRequestStatus_def)
    next
      case (GetRequestStatus requestKey keyedByArgs)
      with assms show ?thesis by (simp add: getRequestStatus_touch_def)
    qed (use False in simp_all)
  qed
  then show "c < length (calls (step w act))"
    "c_this (calls (step w act) ! c) = c_this (calls w ! c)"
    "c_completed (calls (step w act) ! c) = c_completed (calls w ! c)"
    "c_rollback (calls (step w act) ! c) = c_rollback (calls w ! c)"
    "c_spec (calls (step w act) ! c) = c_spec (calls w ! c)"
    by simp_all
qed

lemma run_Cons [simp]: "run w (act # acts) = run (step w act) acts"
  by (simp add: run_def)

lemma run_Nil [simp]: "run w [] = w"
  by (simp add: run_def)

lemma run_keeps_call:
  assumes "c < length (calls w)"
  shows "c < length (calls (run w acts))"
    "c_this (calls (run w acts) ! c) = c_this (calls w ! c)"
    "c_completed (calls (run w acts) ! c) = c_completed (calls w ! c)"
    "c_rollback (calls (run w acts) ! c) = c_rollback (calls w ! c)"
    "c_spec (calls (run w acts) ! c) = c_spec (calls w ! c)"
  using assms
  by (induction acts arbitrary: w) (simp_all add: step_keeps_call)

section \<open>Deduplication\<close>

lemma dedup_step:
  assumes "store w (getTrackingKey actionName spec) = Some a"
    and "request (debouncers w ! a) = Some r"
    and "receivedAt r = None"
    and "payload r = params spec"
  shows "step w (Dispatch actionName spec u now)
           = w\<lparr>callers := callers w @ [AwaitsPromise (completed r)]\<rparr>"
  using assms
  by (simp add: wrappedActionFn_def ensure_debouncer_def triggerApiRequest_start_def
      dedup_hit_def get_completed_def)

lemma returned_call_settles_promise:
  assumes "reachable w" "c < length (calls w)"
    "awaited_outcome w (AwaitsCall c) = Some (Inr (Some v))"
  shows "awaited_outcome w (AwaitsPromise (Some (c_completed (calls w ! c)))) = Some (Inr (Some v))"
proof -
  from assms(3) have "returned (c_pc (calls w ! c)) = Some v"
    by (cases "c_pc (calls w ! c)") (simp_all add: awaited_outcome_def)
  with reachable_invariants(6) [OF assms(1)] assms(2)
  have "settled_at (c_completed (calls w ! c)) v w"
    by (simp add: returned_ok_def)
  then show ?thesis by (simp add: awaited_outcome_def settled_at_def)
qed

text \<open>
  Where the test at the head of \<open>triggerApiRequest\<close> does hit (the record under the
  tracking key is pending and its stored payload equals the parameters of the
  description), the dispatch changes nothing but the list of callers, and the caller is
  handed the promise of the pending record, which belongs to the call that created the
  record; whenever that call returns a value, the promise holds that value.
\<close>

lemma dedup_hit_adds_caller:
  assumes "reachable w"
    and "store w (getTrackingKey actionName spec) = Some a"
    and "request (debouncers w ! a) = Some r"
    and "receivedAt r = None"
    and "payload r = params spec"
  shows "step w (Dispatch actionName spec u now)
           = w\<lparr>callers := callers w @ [AwaitsPromise (completed r)]\<rparr> \<and>
         log (step w (Dispatch actionName spec u now)) = log w \<and>
         filter is_physical_call (log (step w (Dispatch actionName spec u now)))
           = filter is_physical_call (log w) \<and>
         (\<exists>c < length (calls w).
            AwaitsCall c \<in> set (callers w) \<and> c_this (calls w ! c) = a \<and>
            completed r = Some (c_completed (calls w ! c)) \<and>
            (\<forall>acts v.
               awaited_outcome (run (step w (Dispatch actionName spec u now)) acts)
                 (AwaitsCall c) = Some (Inr (Some v)) \<longrightarrow>
               awaited_outcome (run (step w (Dispatch actionName spec u now)) acts)
                 (AwaitsPromise (completed r)) = Some (Inr (Some v))))"
proof -
  let ?w' = "step w (Dispatch actionName spec u now)"
  have st: "?w' = w\<lparr>callers := callers w @ [AwaitsPromise (completed r)]\<rparr>"
    using assms(2-5) by (rule dedup_step)
  from reachable_invariants(1) [OF assms(1)] assms(2)
  have a: "a < length (debouncers w)" by (simp add: store_ok_def)
  from assms(3) have "isRequested (debouncers w ! a)"
    "get_completed (debouncers w ! a) = completed r"
    by (simp_all add: isRequested_def get_completed_def)
  with reachable_invariants(7) [OF assms(1)] a
  obtain c where c: "c < length (calls w)" "c_this (calls w ! c) = a"
    "completed r = Some (c_completed (calls w ! c))" "AwaitsCall c \<in> set (callers w)"
    by (auto simp: completed_ok_def)
  have later: "awaited_outcome (run ?w' acts) (AwaitsPromise (completed r)) = Some (Inr (Some v))"
    if "awaited_outcome (run ?w' acts) (AwaitsCall c) = Some (Inr (Some v))" for acts v
  proof -
    have r: "reachable (run ?w' acts)"
      using assms(1) by (intro reachable_run reachable_step)
    have c': "c < length (calls ?w')" using c(1) by (rule step_keeps_call)
    have "c_completed (calls (run ?w' acts) ! c) = c_completed (calls w ! c)"
      using run_keeps_call(3) [OF c', of acts]
        step_keeps_call(3) [OF c(1), of "Dispatch actionName spec u now"]
      by (simp del: step.simps)
    with returned_call_settles_promise [OF r run_keeps_call(1) [OF c'] that]
    show ?thesis
      using c(3) by (simp del: step.simps)
  qed
  from c later have "\<exists>c < length (calls w).
            AwaitsCall c \<in> set (callers w) \<and> c_this (calls w ! c) = a \<and>
            completed r = Some (c_completed (calls w ! c)) \<and>
            (\<forall>acts v.
               awaited_outcome (run ?w' acts) (AwaitsCall c) = Some (Inr (Some v)) \<longrightarrow>
               awaited_outcome (run ?w' acts) (AwaitsPromise (completed r))
                 = Some (Inr (Some v)))"
    by blast
  moreover from st have "log ?w' = log w" by (simp del: step.simps)
  ultimately show ?thesis using st by (simp del: step.simps)
qed

lemma fresh_params_differ:
  "fmupd ''requestUlid'' v (fmupd ''email'' x fmempty) \<noteq> fmupd ''email'' x fmempty"
proof
  assume "fmupd ''requestUlid'' v (fmupd ''email'' x fmempty) = fmupd ''email'' x fmempty"
  then have "fmlookup (fmupd ''requestUlid'' v (fmupd ''email'' x fmempty)) ''requestUlid''
               = fmlookup (fmupd ''email'' x fmempty) ''requestUlid''"
    by simp
  then show False by simp
qed

text \<open>
  C1. The claim: a dispatch made while a request for the same key is pending, with
  parameters deep-equal to the pending one's, issues no second transport call, and both
  callers observe the same outcome. The code, on the action \<open>LOGIN\<close> dispatched twice
  with the same description (\<open>POST /session\<close> with the parameter \<open>email\<close>): the
  first dispatch writes its \<open>requestUlid\<close> into the parameters before it stores them as
  the record's payload, so the second dispatch, whose parameters have no \<open>requestUlid\<close>,
  fails the test although the first is pending, and the transport is called a second
  time. The test hits for a description that already carries the identifier of the
  pending call; when that call then fails without a response, its own caller gets the
  \<open>TypeError\<close> thrown in the \<open>catch\<close> block, and the deduplicated caller the resolved
  \<open>{error}\<close>.
\<close>

theorem identical_dispatch_calls_twice:
  "isPending (getRequestStatus ''LOGIN'' []
     (run (init_world False) [Dispatch ''LOGIN'' login_post ''01'' 1])) \<and>
   getTrackingKey ''LOGIN'' login_post = getKey ''LOGIN'' [] \<and>
   map_option payload (request (debouncers
     (run (init_world False) [Dispatch ''LOGIN'' login_post ''01'' 1]) ! 0))
     = Some (Some (fmupd ''requestUlid'' (JStr ''01'') (fmupd ''email'' (JStr ''a@b.c'') fmempty))) \<and>
   params login_post = Some (fmupd ''email'' (JStr ''a@b.c'') fmempty) \<and>
   filter is_physical_call
     (log (run (init_world False)
        [Dispatch ''LOGIN'' login_post ''01'' 1, Dispatch ''LOGIN'' login_post ''02'' 2]))
     = [LPhysicalCall 0 (Some Post) ''/session'' None
          (Some (BodyParams (Some (fmupd ''requestUlid'' (JStr ''01'')
                                     (fmupd ''email'' (JStr ''a@b.c'') fmempty))))),
        LPhysicalCall 1 (Some Post) ''/session'' None
          (Some (BodyParams (Some (fmupd ''requestUlid'' (JStr ''02'')
                                     (fmupd ''email'' (JStr ''a@b.c'') fmempty)))))] \<and>
   callers (run (init_world False)
        [Dispatch ''LOGIN'' login_post ''01'' 1, Dispatch ''LOGIN'' login_post ''02'' 2])
     = [AwaitsCall 0, AwaitsCall 1] \<and>
   callers (run (init_world False)
        [Dispatch ''LOGIN'' plain_get ''01'' 1, Dispatch ''LOGIN'' resent_login ''02'' 2,
         ApiSettles 0 (Inl network_error) 3])
     = [AwaitsCall 0, AwaitsPromise (Some 0)] \<and>
   awaited_outcome (run (init_world False)
        [Dispatch ''LOGIN'' plain_get ''01'' 1, Dispatch ''LOGIN'' resent_login ''02'' 2,
         ApiSettles 0 (Inl network_error) 3]) (AwaitsCall 0)
     = Some (Inl undefined_read) \<and>
   awaited_outcome (run (init_world False)
        [Dispatch ''LOGIN'' plain_get ''01'' 1, Dispatch ''LOGIN'' resent_login ''02'' 2,
         ApiSettles 0 (Inl network_error) 3]) (AwaitsPromise (Some 0))
     = Some (Inr (Some (TError network_error)))"
  by (simp add: eval_defs isPending_def awaited_outcome_def fresh_params_differ)
section \<open>Rollback\<close>

lemma success_path_not_in_catch: "success_path spec p \<Longrightarrow> \<not> in_catch p"
  by (cases p) simp_all

lemma finish_success_path: "success_path spec (fst (finish_success cl resp w))"
  by (simp add: finish_success_def resolve_and_return_def Let_def)

lemma mark_received_path:
  assumes "isRequested (debouncers w ! c_this cl)"
    "case onSuccess (c_spec cl) of None \<Rightarrow> True | Some g \<Rightarrow> g (data resp) = Inr ()"
  shows "success_path (c_spec cl) (fst (mark_received c cl resp now w))"
  using assms
  by (auto simp: mark_received_def isRequested_def Let_def finish_success_path
      split: option.splits)

lemma on_api_settled_path:
  assumes "isRequested (debouncers w ! c_this cl)" "hooks_return cl resp"
  shows "success_path (c_spec cl) (fst (on_api_settled c cl (Inr resp) now w))"
proof (cases "context_switch cl resp")
  case None
  with assms show ?thesis
    by (simp add: on_api_settled_pc hooks_return_def mark_received_path)
next
  case (Some hs)
  with assms show ?thesis
    by (cases hs) (simp add: on_api_settled_pc hooks_return_def)
qed

lemma on_hook_settled_path:
  assumes "isRequested (debouncers w ! c_this cl)" "success_path (c_spec cl) (c_pc cl)"
  shows "success_path (c_spec cl) (fst (on_hook_settled c cl now w))"
  using assms
  by (cases "c_pc cl")
    (auto simp: on_hook_settled_def mark_received_path finish_success_path split: sum.splits)

text \<open>Both ways a call can have ended are final.\<close>

lemma step_keeps_catch:
  assumes "reachable w" "c < length (calls w)" "in_catch (c_pc (calls w ! c))"
  shows "in_catch (c_pc (calls (step w act) ! c))"
proof (cases "is_completion act")
  case True
  from True reachable_invariants(2) [OF assms(1)] show ?thesis
  proof (cases rule: completion_step [of act w])
    case idle
    with assms show ?thesis by simp
  next
    case (resumed c0 k es)
    show ?thesis
    proof (cases "c0 = c")
      case True
      with resumed assms show ?thesis
        by (simp add: resume_frame stretch_step_def)
    next
      case False
      with resumed assms show ?thesis by (simp add: resume_stretch)
    qed
  qed
next
  case False
  show ?thesis
  proof (cases act)
    case (Dispatch actionName spec u now)
    show ?thesis
      unfolding Dispatch using assms
      by (cases rule: dispatch_cases [of w actionName spec u now]) (simp_all add: nth_append)
  next
    case (ClearRequestStatus requestKey keyedByArgs)
    with assms show ?thesis by (simp add: clearRequestStatus_def)
  next
    case (GetRequestStatus requestKey keyedByArgs)
    with assms show ?thesis by (simp add: getRequestStatus_touch_def)
  qed (use False in simp_all)
qed

lemma step_keeps_success_path:
  assumes "reachable w" "c < length (calls w)"
    "success_path (c_spec (calls w ! c)) (c_pc (calls w ! c))"
  shows "success_path (c_spec (calls (step w act) ! c)) (c_pc (calls (step w act) ! c))"
proof -
  have req: "isRequested (debouncers w ! c_this (calls w ! c))"
    using reachable_invariants(2) [OF assms(1)] assms(2) by (simp add: calls_ok_def)
  have spec: "c_spec (calls (step w act) ! c) = c_spec (calls w ! c)"
    using assms(2) by (rule step_keeps_call)
  have "success_path (c_spec (calls w ! c)) (c_pc (calls (step w act) ! c))"
  proof (cases act)
    case (Dispatch actionName spec u now)
    show ?thesis
      unfolding Dispatch using assms
      by (cases rule: dispatch_cases [of w actionName spec u now]) (simp_all add: nth_append)
  next
    case (DelayElapsed c0)
    with assms show ?thesis
      by (cases "c0 = c") (auto simp: resume_frame resume_stretch stretch_ok_stretches)
  next
    case (ApiSettles c0 outcome now)
    with assms show ?thesis
      by (cases "c0 = c") (auto simp: resume_frame resume_stretch stretch_ok_stretches)
  next
    case (HookSettles c0 now)
    show ?thesis
    proof (cases "c0 = c")
      case True
      with HookSettles assms req show ?thesis
        by (simp add: resume_frame on_hook_settled_path)
    next
      case False
      with HookSettles assms show ?thesis
        by (auto simp: resume_stretch stretch_ok_stretches)
    qed
  next
    case (ClearRequestStatus requestKey keyedByArgs)
    with assms show ?thesis by (simp add: clearRequestStatus_def)
  next
    case (GetRequestStatus requestKey keyedByArgs)
    with assms show ?thesis by (simp add: getRequestStatus_touch_def)
  qed
  with spec show ?thesis by (simp del: step.simps)
qed

lemma run_keeps_catch:
  assumes "reachable w" "c < length (calls w)" "in_catch (c_pc (calls w ! c))"
  shows "in_catch (c_pc (calls (run w acts) ! c))"
  using assms
proof (induction acts arbitrary: w)
  case Nil
  then show ?case by simp
next
  case (Cons act acts)
  from Cons.prems show ?case
    by (simp del: step.simps)
      (intro Cons.IH reachable_step step_keeps_call step_keeps_catch)
qed

lemma run_keeps_success_path:
  assumes "reachable w" "c < length (calls w)"
    "success_path (c_spec (calls w ! c)) (c_pc (calls w ! c))"
  shows "success_path (c_spec (calls (run w acts) ! c)) (c_pc (calls (run w acts) ! c))"
  using assms
proof (induction acts arbitrary: w)
  case Nil
  then show ?case by simp
next
  case (Cons act acts)
  from Cons.prems show ?case
    by (simp del: step.simps)
      (intro Cons.IH reachable_step step_keeps_call step_keeps_success_path)
qed

text \<open>
  C4, as the code has it. For a call in flight that captured a rollback closure and is
  waiting for its response: the rollback has not been invoked; if the transport call
  fails, the rollback has been invoked exactly once from then on, whatever happens
  next; if the transport call succeeds and the hooks called on the way (the
  context-switch hook, \<open>onSuccess\<close>) return normally, the rollback is never invoked.
\<close>

theorem rollback_once_on_failure:
  assumes "reachable w" "c < length (calls w)" "c_pc (calls w ! c) = AwaitApi"
    "c_rollback (calls w ! c) = Some rb"
  shows "rollbacks c (log w) = 0 \<and>
         (\<forall>e now acts. rollbacks c (log (run (step w (ApiSettles c (Inl e) now)) acts)) = 1) \<and>
         (\<forall>resp now acts.
            hooks_return (calls w ! c) resp \<longrightarrow>
            rollbacks c (log (run (step w (ApiSettles c (Inr resp) now)) acts)) = 0)"
proof (intro conjI allI impI)
  from reachable_invariants(4) [OF assms(1)] assms(2,3)
  show "rollbacks c (log w) = 0" by (simp add: rollbacks_ok_def)
  have req: "isRequested (debouncers w ! c_this (calls w ! c))"
    using reachable_invariants(2) [OF assms(1)] assms(2) by (simp add: calls_ok_def)
  show "rollbacks c (log (run (step w (ApiSettles c (Inl e) now)) acts)) = 1" for e now acts
  proof -
    let ?w1 = "step w (ApiSettles c (Inl e) now)"
    have r1: "reachable ?w1" using assms(1) by (rule reachable_step)
    have c1: "c < length (calls ?w1)" using assms(2) by (rule step_keeps_call)
    have "in_catch (c_pc (calls ?w1 ! c))"
      using assms(2,3) by (simp add: resume_frame on_api_settled_def)
    with r1 c1 have "in_catch (c_pc (calls (run ?w1 acts) ! c))" by (rule run_keeps_catch)
    moreover have "c_rollback (calls (run ?w1 acts) ! c) = Some rb"
      using run_keeps_call(4) [OF c1, of acts] step_keeps_call(4) [OF assms(2), of "ApiSettles c (Inl e) now"]
        assms(4) by (simp del: step.simps)
    moreover have "rollbacks_ok (run ?w1 acts)"
      using r1 by (intro reachable_invariants reachable_run)
    ultimately show ?thesis
      using run_keeps_call(1) [OF c1, of acts] by (simp add: rollbacks_ok_def del: step.simps)
  qed
  show "rollbacks c (log (run (step w (ApiSettles c (Inr resp) now)) acts)) = 0"
    if h: "hooks_return (calls w ! c) resp" for resp now acts
  proof -
    let ?w1 = "step w (ApiSettles c (Inr resp) now)"
    have r1: "reachable ?w1" using assms(1) by (rule reachable_step)
    have c1: "c < length (calls ?w1)" using assms(2) by (rule step_keeps_call)
    have "success_path (c_spec (calls w ! c)) (c_pc (calls ?w1 ! c))"
      using assms(2,3) req h by (simp add: resume_frame on_api_settled_path)
    then have "success_path (c_spec (calls ?w1 ! c)) (c_pc (calls ?w1 ! c))"
      using step_keeps_call(5) [OF assms(2), of "ApiSettles c (Inr resp) now"]
      by (simp del: step.simps)
    with r1 c1 have "success_path (c_spec (calls (run ?w1 acts) ! c)) (c_pc (calls (run ?w1 acts) ! c))"
      by (rule run_keeps_success_path)
    then have "\<not> in_catch (c_pc (calls (run ?w1 acts) ! c))"
      by (rule success_path_not_in_catch)
    moreover have "rollbacks_ok (run ?w1 acts)"
      using r1 by (intro reachable_invariants reachable_run)
    ultimately show ?thesis
      using run_keeps_call(1) [OF c1, of acts] by (simp add: rollbacks_ok_def del: step.simps)
  qed
qed

text \<open>
  A call with a rollback fails with status 500, or succeeds with status 200 and no hook
  to throw.
\<close>

theorem rollback_once_on_failure_witness:
  "rollbacks 0 (log (run (init_world False) [Dispatch ''SAVE'' with_rollback ''01'' 1])) = 0 \<and>
   rollbacks 0 (log (run (step (run (init_world False) [Dispatch ''SAVE'' with_rollback ''01'' 1])
                               (ApiSettles 0 (Inl (http_error 500 JNull)) 2)) [])) = 1 \<and>
   rollbacks 0 (log (run (step (run (init_world False) [Dispatch ''SAVE'' with_rollback ''01'' 1])
                               (ApiSettles 0 (Inr (response_with 200 [] JNull)) 2)) [])) = 0"
proof -
  let ?w = "run (init_world False) [Dispatch ''SAVE'' with_rollback ''01'' 1]"
  have r: "reachable ?w" by (intro reachable_run reachable_init)
  have c: "0 < length (calls ?w)" "c_pc (calls ?w ! 0) = AwaitApi"
    "c_rollback (calls ?w ! 0) = Some sample_rollback"
    by (simp_all add: eval_defs)
  have h: "hooks_return (calls ?w ! 0) (response_with 200 [] JNull)"
    by (simp add: eval_defs hooks_return_def context_switch_def)
  from rollback_once_on_failure [OF r c] h show ?thesis by blast
qed

text \<open>
  The claim of C4 as it was stated, that the rollback is never invoked when the transport
  call succeeds, fails where a hook throws after the successful response: \<open>onSuccess\<close>
  throws, the \<open>catch\<close> block runs, and the rollback is invoked.
\<close>

theorem rollback_after_successful_call:
  "c_rollback (calls (run (init_world False) [Dispatch ''SAVE'' failing_onSuccess ''01'' 1]) ! 0)
     = Some sample_rollback \<and>
   log (run (init_world False)
          [Dispatch ''SAVE'' failing_onSuccess ''01'' 1,
           ApiSettles 0 (Inr (response_with 200 [] JNull)) 2,
           HookSettles 0 3])
     = [LOptimistic 0 ''01'',
        LPhysicalCall 0 (Some Get) ''/session''
          (Some (fmupd ''requestUlid'' (JStr ''01'') fmempty)) None,
        LOnSuccess 0 JNull,
        LRollback 0 7] \<and>
   rollbacks 0 (log (run (init_world False)
          [Dispatch ''SAVE'' failing_onSuccess ''01'' 1,
           ApiSettles 0 (Inr (response_with 200 [] JNull)) 2,
           HookSettles 0 3])) = 1"
  by (simp add: eval_defs rollbacks_def)

section \<open>The context-switch hook\<close>

lemma log_grows_step:
  assumes "reachable w"
  shows "\<exists>es. log (step w act) = log w @ es"
proof (cases "is_completion act")
  case True
  from True reachable_invariants(2) [OF assms] show ?thesis
  proof (cases rule: completion_step [of act w])
    case idle
    then show ?thesis by simp
  next
    case (resumed c k es)
    then show ?thesis by (simp add: resume_frame)
  qed
next
  case False
  show ?thesis
  proof (cases act)
    case (Dispatch actionName spec u now)
    show ?thesis
      unfolding Dispatch
    proof (cases rule: dispatch_cases [of w actionName spec u now])
      case (dedup p)
      then show "\<exists>es. log (step w (Dispatch actionName spec u now)) = log w @ es" by simp
    next
      case (start a)
      then show "\<exists>es. log (step w (Dispatch actionName spec u now)) = log w @ es"
        using start_call_log [of "length (calls w)" a spec u now
            "ensure_debouncer (getTrackingKey actionName spec) w" 0]
        by auto
    qed
  next
    case (ClearRequestStatus requestKey keyedByArgs)
    then show ?thesis by (simp add: clearRequestStatus_def)
  next
    case (GetRequestStatus requestKey keyedByArgs)
    then show ?thesis by (simp add: getRequestStatus_touch_def)
  qed (use False in simp_all)
qed

lemma log_grows_run:
  assumes "reachable w"
  shows "\<exists>es. log (run w acts) = log w @ es"
  using assms
proof (induction acts arbitrary: w)
  case Nil
  then show ?case by simp
next
  case (Cons act acts)
  from Cons.prems obtain es1 where es1: "log (step w act) = log w @ es1"
    using log_grows_step by blast
  from Cons.prems have "reachable (step w act)" by (rule reachable_step)
  from Cons.IH [OF this] obtain es2 where "log (run (step w act) acts) = log (step w act) @ es2"
    by blast
  with es1 show ?case by (simp del: step.simps)
qed



section \<open>\<open>lastSuccessAt\<close> and the first load\<close>

lemma mark_received_lsa:
  "lsa_view (snd (mark_received c cl resp now w)) =
     (if isRequested (debouncers w ! c_this cl) then (lsa_view w)[c_this cl := Some now]
      else lsa_view w)"
  by (auto simp: mark_received_def isRequested_def Let_def split: option.split)

lemma on_api_settled_lsa:
  "lsa_view (snd (on_api_settled c cl outcome now w)) =
     (case outcome of
        Inl e \<Rightarrow> lsa_view w
      | Inr resp \<Rightarrow>
          (case context_switch cl resp of
             None \<Rightarrow> lsa_view (snd (mark_received c cl resp now w))
           | Some hs \<Rightarrow> lsa_view w))"
  by (simp add: on_api_settled_def context_switch_def split: option.split sum.split)

lemma on_hook_settled_lsa:
  "lsa_view (snd (on_hook_settled c cl now w)) =
     (case c_pc cl of
        AwaitNewChangeSet resp (Inr u) \<Rightarrow> lsa_view (snd (mark_received c cl resp now w))
      | other \<Rightarrow> lsa_view w)"
  by (simp add: on_hook_settled_def split: pc.split sum.split)

lemma lsa_nth:
  assumes "lsa_view w' = xs" "length xs = length (debouncers w)" "a < length (debouncers w)"
  shows "get_lastSuccessAt (debouncers w' ! a) = xs ! a"
proof -
  from assms have "a < length (debouncers w')" by (metis view_length(2))
  then show ?thesis using assms(1) by (metis view_nth(2))
qed

text \<open>Only a successful response changes a debouncer's \<open>lastSuccessAt\<close>.\<close>

lemma lastSuccessAt_step:
  assumes "a < length (debouncers w)"
  shows "a < length (debouncers (step w act))"
    and "get_lastSuccessAt (debouncers (step w act) ! a) \<noteq> get_lastSuccessAt (debouncers w ! a)
      \<Longrightarrow> \<exists>c now. c < length (calls w) \<and> c_this (calls w ! c) = a \<and>
            get_lastSuccessAt (debouncers (step w act) ! a) = Some now \<and>
            ((\<exists>resp. act = ApiSettles c (Inr resp) now \<and> c_pc (calls w ! c) = AwaitApi) \<or>
             (\<exists>resp. act = HookSettles c now \<and>
                     c_pc (calls w ! c) = AwaitNewChangeSet resp (Inr ())))"
proof -
  have old: "lsa_view w ! a = get_lastSuccessAt (debouncers w ! a)"
    using assms by (simp add: view_nth)
  have marked: "get_lastSuccessAt (debouncers (snd (mark_received c cl resp now w)) ! a)
                  = get_lastSuccessAt (debouncers w ! a) \<or>
                c_this cl = a \<and>
                get_lastSuccessAt (debouncers (snd (mark_received c cl resp now w)) ! a) = Some now"
    for c cl resp now
  proof -
    have "get_lastSuccessAt (debouncers (snd (mark_received c cl resp now w)) ! a)
          = (if isRequested (debouncers w ! c_this cl) then (lsa_view w)[c_this cl := Some now]
             else lsa_view w) ! a"
      using assms by (intro lsa_nth) (simp_all add: mark_received_lsa)
    then show ?thesis
      using assms old by (cases "c_this cl = a") (simp_all split: if_splits)
  qed
  show "a < length (debouncers (step w act))"
  proof (cases "is_completion act")
    case True
    then show ?thesis
      using assms by (cases rule: completion_cases [of act w]) (simp_all add: resume_stretch)
  next
    case False
    show ?thesis
    proof (cases act)
      case (Dispatch actionName spec u now)
      show ?thesis
        unfolding Dispatch using assms
        by (cases rule: dispatch_cases [of w actionName spec u now])
          (simp_all add: ensure_debouncer_debouncers)
    next
      case (ClearRequestStatus requestKey keyedByArgs)
      with assms show ?thesis by (simp add: clearRequestStatus_def)
    next
      case (GetRequestStatus requestKey keyedByArgs)
      with assms show ?thesis
        by (simp add: getRequestStatus_touch_def ensure_debouncer_debouncers)
    qed (use False in simp_all)
  qed
  assume changed: "get_lastSuccessAt (debouncers (step w act) ! a)
                     \<noteq> get_lastSuccessAt (debouncers w ! a)"
  show "\<exists>c now. c < length (calls w) \<and> c_this (calls w ! c) = a \<and>
            get_lastSuccessAt (debouncers (step w act) ! a) = Some now \<and>
            ((\<exists>resp. act = ApiSettles c (Inr resp) now \<and> c_pc (calls w ! c) = AwaitApi) \<or>
             (\<exists>resp. act = HookSettles c now \<and>
                     c_pc (calls w ! c) = AwaitNewChangeSet resp (Inr ())))"
  proof (cases act)
    case (Dispatch actionName spec u now)
    let ?w1 = "ensure_debouncer (getTrackingKey actionName spec) w"
    have w1: "get_lastSuccessAt (debouncers ?w1 ! a) = get_lastSuccessAt (debouncers w ! a)"
      "a < length (debouncers ?w1)"
      using assms by (simp_all add: ensure_debouncer_debouncers nth_append)
    have "get_lastSuccessAt (debouncers (step w act) ! a) = get_lastSuccessAt (debouncers w ! a)"
      unfolding Dispatch
    proof (cases rule: dispatch_cases [of w actionName spec u now])
      case (dedup p)
      with w1 show "get_lastSuccessAt (debouncers (step w (Dispatch actionName spec u now)) ! a)
                     = get_lastSuccessAt (debouncers w ! a)"
        by simp
    next
      case (start a0)
      have "get_lastSuccessAt (debouncers (snd (start_call (length (calls w)) a0 spec u now ?w1)) ! a)
              = lsa_view ?w1 ! a"
        using w1(2) by (intro lsa_nth) simp_all
      with w1 start(2) show "get_lastSuccessAt (debouncers (step w (Dispatch actionName spec u now)) ! a)
                     = get_lastSuccessAt (debouncers w ! a)"
        by (simp add: view_nth)
    qed
    with changed show ?thesis by simp
  next
    case (DelayElapsed c)
    have "get_lastSuccessAt (debouncers (step w act) ! a) = get_lastSuccessAt (debouncers w ! a)"
      using DelayElapsed by (simp add: resume_frame)
    with changed show ?thesis by simp
  next
    case (ApiSettles c outcome now)
    show ?thesis
    proof (cases "c < length (calls w) \<and> c_pc (calls w ! c) = AwaitApi")
      case False
      with ApiSettles changed show ?thesis by auto
    next
      case True
      let ?cl = "calls w ! c"
      have st: "debouncers (step w act) = debouncers (snd (on_api_settled c ?cl outcome now w))"
        using True ApiSettles by (simp add: resume_frame)
      show ?thesis
      proof (cases outcome)
        case (Inl e)
        have "get_lastSuccessAt (debouncers (snd (on_api_settled c ?cl outcome now w)) ! a)
                = lsa_view w ! a"
          using assms Inl by (intro lsa_nth) (simp_all add: on_api_settled_lsa)
        with changed st old show ?thesis by simp
      next
        case (Inr resp)
        show ?thesis
        proof (cases "context_switch ?cl resp")
          case (Some hs)
          have "get_lastSuccessAt (debouncers (snd (on_api_settled c ?cl outcome now w)) ! a)
                  = lsa_view w ! a"
            using assms Inr Some by (intro lsa_nth) (simp_all add: on_api_settled_lsa)
          with changed st old show ?thesis by simp
        next
          case None
          have "lsa_view (snd (on_api_settled c ?cl outcome now w))
                  = lsa_view (snd (mark_received c ?cl resp now w))"
            using Inr None by (simp add: on_api_settled_lsa)
          then have "get_lastSuccessAt (debouncers (snd (on_api_settled c ?cl outcome now w)) ! a)
                  = get_lastSuccessAt (debouncers (snd (mark_received c ?cl resp now w)) ! a)"
            using assms by (metis lsa_nth mark_received_frame(2) view_length(2))
          with marked [of c ?cl resp now] changed st
          have "c_this ?cl = a \<and> get_lastSuccessAt (debouncers (step w act) ! a) = Some now"
            by auto
          with True ApiSettles Inr show ?thesis by blast
        qed
      qed
    qed
  next
    case (HookSettles c now)
    show ?thesis
    proof (cases "c < length (calls w)")
      case False
      with HookSettles changed show ?thesis by auto
    next
      case True
      let ?cl = "calls w ! c"
      have st: "debouncers (step w act) = debouncers (snd (on_hook_settled c ?cl now w))"
        using True HookSettles by (simp add: resume_frame)
      show ?thesis
      proof (cases "\<exists>resp. c_pc ?cl = AwaitNewChangeSet resp (Inr ())")
        case False
        then have "lsa_view (snd (on_hook_settled c ?cl now w)) = lsa_view w"
          by (auto simp: on_hook_settled_lsa split: pc.split sum.split)
        then have "get_lastSuccessAt (debouncers (snd (on_hook_settled c ?cl now w)) ! a)
                = lsa_view w ! a"
          using assms by (intro lsa_nth) simp_all
        with changed st old show ?thesis by simp
      next
        case True
        then obtain resp where pc: "c_pc ?cl = AwaitNewChangeSet resp (Inr ())" by blast
        then have "lsa_view (snd (on_hook_settled c ?cl now w))
                  = lsa_view (snd (mark_received c ?cl resp now w))"
          by (simp add: on_hook_settled_lsa)
        then have "get_lastSuccessAt (debouncers (snd (on_hook_settled c ?cl now w)) ! a)
                  = get_lastSuccessAt (debouncers (snd (mark_received c ?cl resp now w)) ! a)"
          using assms by (metis lsa_nth mark_received_frame(2) view_length(2))
        with marked [of c ?cl resp now] changed st
        have "c_this ?cl = a \<and> get_lastSuccessAt (debouncers (step w act) ! a) = Some now"
          by auto
        with \<open>c < length (calls w)\<close> HookSettles pc show ?thesis by blast
      qed
    qed
  next
    case (ClearRequestStatus requestKey keyedByArgs)
    with changed show ?thesis by (simp add: clearRequestStatus_def)
  next
    case (GetRequestStatus requestKey keyedByArgs)
    with changed assms show ?thesis
      by (simp add: getRequestStatus_touch_def ensure_debouncer_debouncers nth_append)
  qed
qed

lemma lastSuccessAt_kept:
  assumes "a < length (debouncers w)" "get_lastSuccessAt (debouncers w ! a) \<noteq> None"
  shows "a < length (debouncers (run w acts)) \<and>
         get_lastSuccessAt (debouncers (run w acts) ! a) \<noteq> None"
  using assms
proof (induction acts arbitrary: w)
  case Nil
  then show ?case by simp
next
  case (Cons act acts)
  have "a < length (debouncers (step w act))"
    using Cons.prems(1) by (rule lastSuccessAt_step)
  moreover have "get_lastSuccessAt (debouncers (step w act) ! a) \<noteq> None"
    using lastSuccessAt_step(2) [OF Cons.prems(1), of act] Cons.prems(2) by fastforce
  ultimately show ?case
    using Cons.IH by (simp del: step.simps)
qed

section \<open>A key and its debouncer\<close>

text \<open>The status read under a key is the debouncer the store holds for it, or a fresh one.\<close>

lemma getRequestStatus_read:
  "getRequestStatus requestKey keyedByArgs w =
     (case store w (getKey requestKey keyedByArgs) of
        None \<Rightarrow> new_ApiRequestDebouncer
      | Some a \<Rightarrow> debouncers w ! a)"
  by (simp add: getRequestStatus_def getRequestStatus_touch_def ensure_debouncer_def Let_def
      split: option.split)

lemma fresh_debouncer [simp]:
  "\<not> isRequested new_ApiRequestDebouncer" "\<not> isFirstLoad new_ApiRequestDebouncer"
  "get_lastSuccessAt new_ApiRequestDebouncer = None"
  by (simp_all add: new_ApiRequestDebouncer_def isRequested_def isFirstLoad_def
      get_lastSuccessAt_def)

lemma ensure_debouncer_store_ok:
  assumes "store_ok w"
  shows "store_ok (ensure_debouncer k w)"
  using assms
  by (auto simp: store_ok_def ensure_debouncer_store ensure_debouncer_debouncers
      less_Suc_eq split: if_splits)

text \<open>
  What a step does to the entry of one key: it leaves it, or clears it, or gives a key
  without entry a fresh debouncer, whose record (if the step is a dispatch) starts
  without \<open>lastSuccessAt\<close>.
\<close>

lemma store_step:
  "store (step w act) k = store w k \<or>
   is_clear_of k act \<and> store (step w act) k = None \<or>
   store w k = None \<and> store (step w act) k = Some (length (debouncers w)) \<and>
     get_lastSuccessAt (debouncers (step w act) ! length (debouncers w)) = None"
proof (cases "is_completion act")
  case True
  then have "store (step w act) = store w"
    by (cases rule: completion_cases [of act w]) (simp_all add: resume_stretch)
  then show ?thesis by simp
next
  case False
  have ens: "store (ensure_debouncer k0 w) k = store w k \<or>
      store w k = None \<and> store (ensure_debouncer k0 w) k = Some (length (debouncers w)) \<and>
      debouncers (ensure_debouncer k0 w) ! length (debouncers w) = new_ApiRequestDebouncer \<and>
      length (debouncers w) < length (debouncers (ensure_debouncer k0 w))" for k0
    by (simp add: ensure_debouncer_store ensure_debouncer_debouncers)
  show ?thesis
  proof (cases act)
    case (Dispatch actionName spec u now)
    let ?w1 = "ensure_debouncer (getTrackingKey actionName spec) w"
    let ?n = "length (debouncers w)"
    have "store (step w act) k = store ?w1 k \<and>
          (?n < length (debouncers ?w1) \<longrightarrow>
             get_lastSuccessAt (debouncers (step w act) ! ?n)
               = get_lastSuccessAt (debouncers ?w1 ! ?n))"
      unfolding Dispatch
    proof (cases rule: dispatch_cases [of w actionName spec u now])
      case (dedup p)
      then show "store (step w (Dispatch actionName spec u now)) k = store ?w1 k \<and>
          (?n < length (debouncers ?w1) \<longrightarrow>
             get_lastSuccessAt (debouncers (step w (Dispatch actionName spec u now)) ! ?n)
               = get_lastSuccessAt (debouncers ?w1 ! ?n))"
        by simp
    next
      case (start a0)
      have "get_lastSuccessAt
              (debouncers (snd (start_call (length (calls w)) a0 spec u now ?w1)) ! ?n)
              = lsa_view ?w1 ! ?n"
        if "?n < length (debouncers ?w1)"
        using that by (intro lsa_nth) simp_all
      with start(2)
      show "store (step w (Dispatch actionName spec u now)) k = store ?w1 k \<and>
          (?n < length (debouncers ?w1) \<longrightarrow>
             get_lastSuccessAt (debouncers (step w (Dispatch actionName spec u now)) ! ?n)
               = get_lastSuccessAt (debouncers ?w1 ! ?n))"
        by (simp add: view_nth)
    qed
    with ens [of "getTrackingKey actionName spec"] show ?thesis by auto
  next
    case (ClearRequestStatus requestKey keyedByArgs)
    then show ?thesis by (simp add: clearRequestStatus_def)
  next
    case (GetRequestStatus requestKey keyedByArgs)
    with ens [of "getKey requestKey keyedByArgs"] show ?thesis
      by (auto simp: getRequestStatus_touch_def)
  qed (use False in simp_all)
qed

text \<open>The same for the status read under a key.\<close>

lemma key_lastSuccessAt_step:
  assumes "store_ok w"
    and "get_lastSuccessAt (getRequestStatus requestKey keyedByArgs (step w act))
           \<noteq> get_lastSuccessAt (getRequestStatus requestKey keyedByArgs w)"
  shows "is_clear_of (getKey requestKey keyedByArgs) act \<and>
         get_lastSuccessAt (getRequestStatus requestKey keyedByArgs (step w act)) = None \<or>
         (\<exists>c now. c < length (calls w) \<and>
            store w (getKey requestKey keyedByArgs) = Some (c_this (calls w ! c)) \<and>
            get_lastSuccessAt (getRequestStatus requestKey keyedByArgs (step w act)) = Some now \<and>
            ((\<exists>resp. act = ApiSettles c (Inr resp) now \<and> c_pc (calls w ! c) = AwaitApi) \<or>
             (\<exists>resp. act = HookSettles c now \<and>
                     c_pc (calls w ! c) = AwaitNewChangeSet resp (Inr ()))))"
proof -
  let ?k = "getKey requestKey keyedByArgs"
  let ?L = "\<lambda>w. get_lastSuccessAt (getRequestStatus requestKey keyedByArgs w)"
  consider (same) "store (step w act) ?k = store w ?k"
    | (cleared) "is_clear_of ?k act" "store (step w act) ?k = None"
    | (created) "store w ?k = None" "store (step w act) ?k = Some (length (debouncers w))"
        "get_lastSuccessAt (debouncers (step w act) ! length (debouncers w)) = None"
    using store_step [of w act ?k] by (elim disjE conjE) (simp_all del: step.simps)
  then show ?thesis
  proof cases
    case same
    show ?thesis
    proof (cases "store w ?k")
      case None
      with same assms(2) show ?thesis by (simp add: getRequestStatus_read del: step.simps)
    next
      case (Some a)
      with assms(1) have a: "a < length (debouncers w)" by (simp add: store_ok_def)
      from Some same assms(2)
      have changed: "get_lastSuccessAt (debouncers (step w act) ! a)
                       \<noteq> get_lastSuccessAt (debouncers w ! a)"
        and new: "?L (step w act) = get_lastSuccessAt (debouncers (step w act) ! a)"
        by (simp_all add: getRequestStatus_read del: step.simps)
      from lastSuccessAt_step(2) [OF a changed] new Some
      show ?thesis by (simp del: step.simps) blast
    qed
  next
    case cleared
    then show ?thesis by (simp add: getRequestStatus_read del: step.simps)
  next
    case created
    with assms(2) show ?thesis by (simp add: getRequestStatus_read del: step.simps)
  qed
qed

lemma key_lastSuccessAt_kept:
  assumes "store_ok w"
    and "get_lastSuccessAt (getRequestStatus requestKey keyedByArgs w) \<noteq> None"
    and "\<forall>act \<in> set acts. \<not> is_clear_of (getKey requestKey keyedByArgs) act"
  shows "get_lastSuccessAt (getRequestStatus requestKey keyedByArgs (run w acts)) \<noteq> None"
  using assms
proof (induction acts arbitrary: w)
  case Nil
  then show ?case by simp
next
  case (Cons act acts)
  have "get_lastSuccessAt (getRequestStatus requestKey keyedByArgs (step w act)) \<noteq> None"
    using key_lastSuccessAt_step [OF Cons.prems(1), of requestKey keyedByArgs act]
      Cons.prems(2,3)
    by (cases "get_lastSuccessAt (getRequestStatus requestKey keyedByArgs (step w act))
                 = get_lastSuccessAt (getRequestStatus requestKey keyedByArgs w)") auto
  moreover have "store_ok (step w act)" using Cons.prems(1) by (rule store_ok_step)
  ultimately show ?case
    using Cons.IH [of "step w act"] Cons.prems(3) by (simp del: step.simps)
qed




text \<open>
  Clearing the status of a key that has succeeded drops the debouncer that held
  \<open>lastSuccessAt\<close>: the next dispatch of the key is in its first load again.
\<close>

lemma first_load_after_clear:
  "isFirstLoad (getRequestStatus ''LOAD'' []
     (run (init_world False)
        [Dispatch ''LOAD'' plain_get ''01'' 1,
         ApiSettles 0 (Inr (response_with 200 [] JNull)) 2,
         ClearRequestStatus ''LOAD'' [],
         Dispatch ''LOAD'' plain_get ''02'' 3]))"
  by (simp add: eval_defs isFirstLoad_def)
section \<open>Clearing a status\<close>

text \<open>No stretch of a call reads or writes the store.\<close>

lemma store_update_prims:
  "add_log ev (w\<lparr>store := s\<rparr>) = (add_log ev w)\<lparr>store := s\<rparr>"
  "resolve p v (w\<lparr>store := s\<rparr>) = (resolve p v w)\<lparr>store := s\<rparr>"
  "set_request a r (w\<lparr>store := s\<rparr>) = (set_request a r w)\<lparr>store := s\<rparr>"
  by (simp_all add: add_log_def resolve_def set_request_def)

lemma store_update_resolve_and_return:
  "resolve_and_return cl k v (w\<lparr>store := s\<rparr>)
     = (fst (resolve_and_return cl k v w), (snd (resolve_and_return cl k v w))\<lparr>store := s\<rparr>)"
  by (simp add: resolve_and_return_def Let_def store_update_prims resolve_def)

lemma store_update_catch_store_and_return:
  "catch_store_and_return cl e (w\<lparr>store := s\<rparr>)
     = (fst (catch_store_and_return cl e w), (snd (catch_store_and_return cl e w))\<lparr>store := s\<rparr>)"
  by (cases "response e")
    (simp_all add: catch_store_and_return_def Let_def store_update_prims
      store_update_resolve_and_return split: option.split)

lemma store_update_catch_onFail:
  "catch_onFail c cl e (w\<lparr>store := s\<rparr>)
     = (fst (catch_onFail c cl e w), (snd (catch_onFail c cl e w))\<lparr>store := s\<rparr>)"
  by (simp add: catch_onFail_def store_update_prims store_update_catch_store_and_return
      split: option.split sum.split)

lemma store_update_catch_block:
  "catch_block c cl e now (w\<lparr>store := s\<rparr>)
     = (fst (catch_block c cl e now w), (snd (catch_block c cl e now w))\<lparr>store := s\<rparr>)"
  by (simp add: catch_block_def Let_def store_update_prims store_update_catch_onFail
      split: option.split sum.split)

lemma store_update_finish_success:
  "finish_success cl resp (w\<lparr>store := s\<rparr>)
     = (fst (finish_success cl resp w), (snd (finish_success cl resp w))\<lparr>store := s\<rparr>)"
  by (simp add: finish_success_def store_update_resolve_and_return)

lemma store_update_mark_received:
  "mark_received c cl resp now (w\<lparr>store := s\<rparr>)
     = (fst (mark_received c cl resp now w), (snd (mark_received c cl resp now w))\<lparr>store := s\<rparr>)"
  by (simp add: mark_received_def Let_def store_update_prims store_update_catch_block
      store_update_finish_success split: option.split)

lemma store_update_on_api_settled:
  "on_api_settled c cl outcome now (w\<lparr>store := s\<rparr>)
     = (fst (on_api_settled c cl outcome now w),
        (snd (on_api_settled c cl outcome now w))\<lparr>store := s\<rparr>)"
  by (simp add: on_api_settled_def store_update_prims store_update_catch_block
      store_update_mark_received split: option.split sum.split)

lemma store_update_on_hook_settled:
  "on_hook_settled c cl now (w\<lparr>store := s\<rparr>)
     = (fst (on_hook_settled c cl now w), (snd (on_hook_settled c cl now w))\<lparr>store := s\<rparr>)"
  by (simp add: on_hook_settled_def store_update_catch_block store_update_mark_received
      store_update_finish_success split: pc.split sum.split)

lemma store_update_issue_call:
  "issue_call c cl (w\<lparr>store := s\<rparr>)
     = (fst (issue_call c cl w), (snd (issue_call c cl w))\<lparr>store := s\<rparr>)"
  by (simp add: issue_call_def store_update_prims)

lemma store_update_resume:
  assumes "\<And>cl w. k cl (w\<lparr>store := s\<rparr>) = (fst (k cl w), (snd (k cl w))\<lparr>store := s\<rparr>)"
  shows "resume c k (w\<lparr>store := s\<rparr>) = (resume c k w)\<lparr>store := s\<rparr>"
  by (simp add: resume_def assms case_prod_unfold)

lemma store_update_step:
  assumes "is_completion act"
  shows "step (w\<lparr>store := s\<rparr>) act = (step w act)\<lparr>store := s\<rparr>"
proof (cases act)
  case (DelayElapsed c)
  then show ?thesis
    by (simp add: store_update_resume [of "issue_call c", OF store_update_issue_call])
next
  case (ApiSettles c outcome now)
  then show ?thesis
    by (simp add: store_update_resume [of "\<lambda>cl. on_api_settled c cl outcome now",
          OF store_update_on_api_settled])
next
  case (HookSettles c now)
  then show ?thesis
    by (simp add: store_update_resume [of "\<lambda>cl. on_hook_settled c cl now",
          OF store_update_on_hook_settled])
qed (use assms in simp_all)

lemma store_update_run:
  assumes "\<forall>act \<in> set acts. is_completion act"
  shows "run (w\<lparr>store := s\<rparr>) acts = (run w acts)\<lparr>store := s\<rparr> \<and>
         store (run w acts) = store w"
  using assms
proof (induction acts arbitrary: w s)
  case Nil
  then show ?case by simp
next
  case (Cons act acts)
  then have act: "is_completion act" by simp
  have "store (step w act) = store w"
    using act by (cases rule: completion_cases [of act w]) (simp_all add: resume_stretch)
  with Cons act show ?case by (simp add: store_update_step del: step.simps)
qed

lemma cleared_status:
  assumes "store w (getKey requestKey keyedByArgs) = None"
  shows "\<not> isRequested (getRequestStatus requestKey keyedByArgs w)"
  using assms
  by (simp add: getRequestStatus_def getRequestStatus_touch_def ensure_debouncer_def
      isRequested_def new_ApiRequestDebouncer_def Let_def)

text \<open>An idle key stays idle under every step that is not a dispatch on it.\<close>

lemma idle_keyD:
  assumes "idle_key k w" "store w k = Some a"
  shows "\<not> isRequested (debouncers w ! a)" "store w k' = Some a \<Longrightarrow> k' = k"
  using assms unfolding idle_key_def by blast+

lemma idle_key_ensure_debouncer:
  assumes "store_ok w" "idle_key k w"
  shows "idle_key k (ensure_debouncer k0 w)"
  unfolding idle_key_def
proof (intro allI impI)
  fix a
  assume a: "store (ensure_debouncer k0 w) k = Some a"
  show "\<not> isRequested (debouncers (ensure_debouncer k0 w) ! a) \<and>
        (\<forall>k'. store (ensure_debouncer k0 w) k' = Some a \<longrightarrow> k' = k)"
  proof (cases "k = k0 \<and> store w k0 = None")
    case True
    with a have n: "a = length (debouncers w)" by (simp add: ensure_debouncer_store)
    have "k' = k" if h: "store (ensure_debouncer k0 w) k' = Some a" for k'
    proof (cases "k' = k0")
      case True
      with \<open>k = k0 \<and> store w k0 = None\<close> show ?thesis by simp
    next
      case False
      with h have "store w k' = Some (length (debouncers w))"
        by (simp add: ensure_debouncer_store n)
      with assms(1) have "length (debouncers w) < length (debouncers w)"
        unfolding store_ok_def by blast
      then show ?thesis by simp
    qed
    with True n show ?thesis by (simp add: ensure_debouncer_debouncers)
  next
    case False
    have old: "store w k = Some a"
    proof (cases "k = k0")
      case True
      with False a show ?thesis by (auto simp: ensure_debouncer_store)
    next
      case False
      with a show ?thesis by (simp add: ensure_debouncer_store)
    qed
    with assms(1) have lt: "a < length (debouncers w)" unfolding store_ok_def by blast
    have "k' = k" if h: "store (ensure_debouncer k0 w) k' = Some a" for k'
    proof (cases "k' = k0 \<and> store w k0 = None")
      case True
      with h lt show ?thesis by (simp add: ensure_debouncer_store)
    next
      case False
      then have "store (ensure_debouncer k0 w) k' = store w k'"
        by (cases "k' = k0") (simp_all add: ensure_debouncer_store)
      with h have "store w k' = Some a" by simp
      then show ?thesis using assms(2) old by (rule idle_keyD(2) [rotated 2])
    qed
    moreover have "\<not> isRequested (debouncers (ensure_debouncer k0 w) ! a)"
      using idle_keyD(1) [OF assms(2) old] lt by (simp add: ensure_debouncer_nth)
    ultimately show ?thesis by simp
  qed
qed

lemma idle_key_step:
  assumes "store_ok w" "idle_key k w" "\<not> is_dispatch_of k act"
  shows "idle_key k (step w act)"
proof (cases "is_completion act")
  case True
  then show ?thesis
  proof (cases rule: completion_cases [of act w])
    case idle
    with assms(2) show ?thesis by simp
  next
    case (resumed c kk)
    have "isRequested (debouncers (resume c kk w) ! a) = isRequested (debouncers w ! a)"
      if "store w k = Some a" for a
    proof (rule requested_nth)
      show "requested_view (resume c kk w) = requested_view w"
        using resumed(2) by (rule resume_stretch)
      show "a < length (debouncers w)" using assms(1) that by (simp add: store_ok_def)
    qed
    with assms(2) resumed show ?thesis
      by (simp add: idle_key_def resume_stretch(1))
  qed
next
  case False
  show ?thesis
  proof (cases act)
    case (Dispatch actionName spec u now)
    let ?k0 = "getTrackingKey actionName spec"
    let ?w1 = "ensure_debouncer ?k0 w"
    from Dispatch assms(3) have other: "?k0 \<noteq> k" by simp
    have idle1: "idle_key k ?w1" using assms(1,2) by (rule idle_key_ensure_debouncer)
    show ?thesis
      unfolding Dispatch
    proof (cases rule: dispatch_cases [of w actionName spec u now])
      case (dedup p)
      with idle1 show "idle_key k (step w (Dispatch actionName spec u now))"
        by (simp add: idle_key_def)
    next
      case (start a0)
      have "debouncers (snd (start_call (length (calls w)) a0 spec u now ?w1)) ! a
              = debouncers ?w1 ! a"
        if "store ?w1 k = Some a" for a
      proof -
        have "a \<noteq> a0"
        proof
          assume "a = a0"
          with start(1) have "store ?w1 ?k0 = Some a" by simp
          with idle1 that have "?k0 = k" by (rule idle_keyD(2))
          with other show False by simp
        qed
        then show ?thesis by (simp add: start_call_debouncers)
      qed
      with idle1 start(2) show "idle_key k (step w (Dispatch actionName spec u now))"
        by (simp add: idle_key_def)
    qed
  next
    case (ClearRequestStatus requestKey keyedByArgs)
    have "\<not> isRequested (debouncers w ! a) \<and>
          (\<forall>k'. ((store w)(getKey requestKey keyedByArgs := None)) k' = Some a \<longrightarrow> k' = k)"
      if h: "((store w)(getKey requestKey keyedByArgs := None)) k = Some a" for a
    proof -
      from h have old: "store w k = Some a" by (simp split: if_splits)
      have "k' = k" if "((store w)(getKey requestKey keyedByArgs := None)) k' = Some a" for k'
      proof -
        from that have "store w k' = Some a" by (simp split: if_splits)
        then show ?thesis using assms(2) old by (rule idle_keyD(2) [rotated 2])
      qed
      with idle_keyD(1) [OF assms(2) old] show ?thesis by simp
    qed
    with ClearRequestStatus show ?thesis
      by (simp add: idle_key_def clearRequestStatus_def)
  next
    case (GetRequestStatus requestKey keyedByArgs)
    with idle_key_ensure_debouncer [OF assms(1,2)] show ?thesis
      by (simp add: getRequestStatus_touch_def)
  qed (use False in simp_all)
qed

lemma idle_key_run:
  assumes "store_ok w" "idle_key k w" "\<forall>act \<in> set acts. \<not> is_dispatch_of k act"
  shows "idle_key k (run w acts)"
  using assms
proof (induction acts arbitrary: w)
  case Nil
  then show ?case by simp
next
  case (Cons act acts)
  have "store_ok (step w act)" using Cons.prems(1) by (rule store_ok_step)
  moreover have "idle_key k (step w act)"
    using Cons.prems by (intro idle_key_step) simp_all
  ultimately show ?case using Cons.IH [of "step w act"] Cons.prems(3) by (simp del: step.simps)
qed

lemma idle_key_status:
  assumes "idle_key (getKey requestKey keyedByArgs) w"
  shows "\<not> isRequested (getRequestStatus requestKey keyedByArgs w)"
  using assms by (simp add: getRequestStatus_read idle_key_def split: option.split)

text \<open>
  C8, as the code has it. \<open>clearRequestStatus\<close> removes the key's debouncer from the
  store and touches nothing else, so the key reads as not requested and no call in
  flight is cancelled. Completing a call neither reads nor writes the store, so every
  continuation of a call in flight goes on exactly as it would have without the
  clearing, on its own debouncer, which the store no longer holds; however the calls in
  flight end, the key has no entry. And whatever happens that is not a dispatch on the
  key (calls completing, the status being read, which puts an empty debouncer into the
  store, further clearings, dispatches on other keys), the key reads as not requested.
\<close>

theorem clearRequestStatus_detaches:
  "store (clearRequestStatus requestKey keyedByArgs w) (getKey requestKey keyedByArgs) = None \<and>
   \<not> isRequested (getRequestStatus requestKey keyedByArgs
                    (clearRequestStatus requestKey keyedByArgs w)) \<and>
   calls (clearRequestStatus requestKey keyedByArgs w) = calls w \<and>
   debouncers (clearRequestStatus requestKey keyedByArgs w) = debouncers w \<and>
   promises (clearRequestStatus requestKey keyedByArgs w) = promises w \<and>
   callers (clearRequestStatus requestKey keyedByArgs w) = callers w \<and>
   log (clearRequestStatus requestKey keyedByArgs w) = log w \<and>
   (\<forall>act w' s. is_completion act \<longrightarrow>
      step (w'\<lparr>store := s\<rparr>) act = (step w' act)\<lparr>store := s\<rparr> \<and>
      store (step w' act) = store w') \<and>
   ((\<forall>act \<in> set acts. is_completion act) \<longrightarrow>
      run (clearRequestStatus requestKey keyedByArgs w) acts
        = clearRequestStatus requestKey keyedByArgs (run w acts) \<and>
      store (run (clearRequestStatus requestKey keyedByArgs w) acts)
        (getKey requestKey keyedByArgs) = None \<and>
      \<not> isRequested (getRequestStatus requestKey keyedByArgs
                       (run (clearRequestStatus requestKey keyedByArgs w) acts))) \<and>
   (reachable w \<longrightarrow>
      (\<forall>later. (\<forall>act \<in> set later. \<not> is_dispatch_of (getKey requestKey keyedByArgs) act) \<longrightarrow>
         \<not> isRequested (getRequestStatus requestKey keyedByArgs
                          (run (clearRequestStatus requestKey keyedByArgs w) later))))"
proof (intro conjI impI allI)
  show now: "store (clearRequestStatus requestKey keyedByArgs w) (getKey requestKey keyedByArgs)
               = None"
    by (simp add: clearRequestStatus_def)
  then show "\<not> isRequested (getRequestStatus requestKey keyedByArgs
                    (clearRequestStatus requestKey keyedByArgs w))"
    by (rule cleared_status)
  show "calls (clearRequestStatus requestKey keyedByArgs w) = calls w"
    "debouncers (clearRequestStatus requestKey keyedByArgs w) = debouncers w"
    "promises (clearRequestStatus requestKey keyedByArgs w) = promises w"
    "callers (clearRequestStatus requestKey keyedByArgs w) = callers w"
    "log (clearRequestStatus requestKey keyedByArgs w) = log w"
    by (simp_all add: clearRequestStatus_def)
  show "step (w'\<lparr>store := s\<rparr>) act = (step w' act)\<lparr>store := s\<rparr>"
    if "is_completion act" for act w' s
    using that by (rule store_update_step)
  show "store (step w' act) = store w'" if "is_completion act" for act w'
    using that by (cases rule: completion_cases [of act w']) (simp_all add: resume_stretch)
  show "\<not> isRequested (getRequestStatus requestKey keyedByArgs
                          (run (clearRequestStatus requestKey keyedByArgs w) later))"
    if r: "reachable w"
      and quiet: "\<forall>act \<in> set later. \<not> is_dispatch_of (getKey requestKey keyedByArgs) act"
    for later
  proof -
    let ?w = "clearRequestStatus requestKey keyedByArgs w"
    have "reachable (step w (ClearRequestStatus requestKey keyedByArgs))"
      using r by (rule reachable_step)
    then have "store_ok ?w" using reachable_invariants(1) by fastforce
    moreover from now have "idle_key (getKey requestKey keyedByArgs) ?w"
      by (simp add: idle_key_def)
    ultimately have "idle_key (getKey requestKey keyedByArgs) (run ?w later)"
      using quiet by (rule idle_key_run)
    then show ?thesis by (rule idle_key_status)
  qed
  assume comp: "\<forall>act \<in> set acts. is_completion act"
  from store_update_run [OF comp]
  show eq: "run (clearRequestStatus requestKey keyedByArgs w) acts
              = clearRequestStatus requestKey keyedByArgs (run w acts)"
    by (simp add: clearRequestStatus_def)
  then show gone: "store (run (clearRequestStatus requestKey keyedByArgs w) acts)
               (getKey requestKey keyedByArgs) = None"
    by (simp add: clearRequestStatus_def)
  then show "\<not> isRequested (getRequestStatus requestKey keyedByArgs
                       (run (clearRequestStatus requestKey keyedByArgs w) acts))"
    by (rule cleared_status)
qed

text \<open>
  A status cleared while its call is in flight; then the call succeeds, the status is
  read, another key is dispatched, and the status is cleared again.
\<close>

theorem clearRequestStatus_detaches_witness:
  "run (clearRequestStatus ''LOGIN'' []
          (run (init_world False) [Dispatch ''LOGIN'' plain_get ''01'' 1]))
       [ApiSettles 0 (Inr (response_with 200 [] (JStr ''ok''))) 2]
     = clearRequestStatus ''LOGIN'' []
         (run (run (init_world False) [Dispatch ''LOGIN'' plain_get ''01'' 1])
              [ApiSettles 0 (Inr (response_with 200 [] (JStr ''ok''))) 2]) \<and>
   store (run (clearRequestStatus ''LOGIN'' []
          (run (init_world False) [Dispatch ''LOGIN'' plain_get ''01'' 1]))
       [ApiSettles 0 (Inr (response_with 200 [] (JStr ''ok''))) 2]) (getKey ''LOGIN'' []) = None \<and>
   \<not> isRequested (getRequestStatus ''LOGIN'' []
       (run (clearRequestStatus ''LOGIN'' []
          (run (init_world False) [Dispatch ''LOGIN'' plain_get ''01'' 1]))
         [ApiSettles 0 (Inr (response_with 200 [] (JStr ''ok''))) 2,
          GetRequestStatus ''LOGIN'' [],
          Dispatch ''LOGOUT'' plain_get ''02'' 3,
          ClearRequestStatus ''LOGIN'' [],
          GetRequestStatus ''LOGIN'' []]))"
proof -
  let ?w = "run (init_world False) [Dispatch ''LOGIN'' plain_get ''01'' 1]"
  let ?later = "[ApiSettles 0 (Inr (response_with 200 [] (JStr ''ok''))) 2,
          GetRequestStatus ''LOGIN'' [],
          Dispatch ''LOGOUT'' plain_get ''02'' 3,
          ClearRequestStatus ''LOGIN'' [],
          GetRequestStatus ''LOGIN'' []]"
  have c: "\<forall>act \<in> set [ApiSettles 0 (Inr (response_with 200 [] (JStr ''ok''))) 2]. is_completion act"
    by simp
  have r: "reachable ?w" by (intro reachable_run reachable_init)
  have q: "\<forall>act \<in> set ?later. \<not> is_dispatch_of (getKey ''LOGIN'' []) act"
    by (simp add: getKey_def getTrackingKey_def js_join_def compact_def plain_get_def)
  from clearRequestStatus_detaches [of "''LOGIN''" "[]" ?w
      "[ApiSettles 0 (Inr (response_with 200 [] (JStr ''ok''))) 2]"] c r q
  show ?thesis by blast
qed

text \<open>
  The claim of C8 as it was stated, that a call pending when the status is cleared
  re-creates the record when it resolves, fails: the call returns its data and marks the
  record of the debouncer it was started on, and the store has no entry for the key.
\<close>

theorem cleared_key_stays_idle:
  "store (run (init_world False)
        [Dispatch ''LOGIN'' plain_get ''01'' 1,
         ClearRequestStatus ''LOGIN'' [],
         ApiSettles 0 (Inr (response_with 200 [] (JStr ''ok''))) 2]) ''LOGIN'' = None \<and>
   \<not> isRequested (getRequestStatus ''LOGIN'' []
       (run (init_world False)
        [Dispatch ''LOGIN'' plain_get ''01'' 1,
         ClearRequestStatus ''LOGIN'' [],
         ApiSettles 0 (Inr (response_with 200 [] (JStr ''ok''))) 2])) \<and>
   c_pc (calls (run (init_world False)
        [Dispatch ''LOGIN'' plain_get ''01'' 1,
         ClearRequestStatus ''LOGIN'' [],
         ApiSettles 0 (Inr (response_with 200 [] (JStr ''ok''))) 2]) ! 0)
     = ReturnedTry (TData (JStr ''ok'')) \<and>
   map_option receivedAt (request (debouncers (run (init_world False)
        [Dispatch ''LOGIN'' plain_get ''01'' 1,
         ClearRequestStatus ''LOGIN'' [],
         ApiSettles 0 (Inr (response_with 200 [] (JStr ''ok''))) 2]) ! 0)) = Some (Some 2)"
  by (simp add: eval_defs isRequested_def)

section \<open>Conflicts\<close>

text \<open>
  Whatever status a failed response carries, 409 included, the failure leaves the same
  state behind: the error on the key's record, the promise resolved with it, one
  transport call in the trace.
\<close>

lemma failure_handling_is_generic:
  "run (init_world False)
     [Dispatch ''SAVE'' login_post ''01'' 1, ApiSettles 0 (Inl (http_error st body)) 2]
   = \<lparr>store = [''SAVE'' \<mapsto> 0],
      debouncers =
        [\<lparr>request = Some
            \<lparr>requestedAt = 1, receivedAt = Some 2, completedAt = None, lastSuccessAt = None,
             payload = Some (fmupd ''requestUlid'' (JStr ''01'')
                               (fmupd ''email'' (JStr ''a@b.c'') fmempty)),
             error = Some (response_with st [] body), completed = Some 0\<rparr>\<rparr>],
      promises = [Some (TError (http_error st body))],
      calls =
        [\<lparr>c_this = 0,
          c_spec = login_post\<lparr>params := Some (fmupd ''requestUlid'' (JStr ''01'')
                                                (fmupd ''email'' (JStr ''a@b.c'') fmempty))\<rparr>,
          c_url = ''/session'', c_rollback = None, c_completed = 0,
          c_pc = ReturnedCatch (TError (http_error st body))\<rparr>],
      callers = [AwaitsCall 0],
      log = [LPhysicalCall 0 (Some Post) ''/session'' None
               (Some (BodyParams (Some (fmupd ''requestUlid'' (JStr ''01'')
                                          (fmupd ''email'' (JStr ''a@b.c'') fmempty)))))],
      delay_env = False\<rparr>"
  by (simp add: eval_defs)


end
